theory Spec2Isabelle
  imports Complex_Main
begin

section \<open>JavaScript values used by the recordings hook\<close>

text \<open>
  A JavaScript number is an IEEE 754 double: a finite value, one of the two infinities
  (\<open>JSON.parse\<close> yields them for an overflowing literal such as \<open>1e999\<close>) or NaN. A finite
  double is kept as the rational number it stands for. The two zeros are one value here:
  a sum that starts at \<open>+0\<close> never becomes \<open>-0\<close>, and both are falsy.
\<close>

datatype jsnum = Fin rat | PosInf | NegInf | NaN

text \<open>The number of binary digits of a positive integer.\<close>

function bit_length :: "int \<Rightarrow> nat" where
  "bit_length n = (if n \<le> 0 then 0 else Suc (bit_length (n div 2)))"
  by pat_completeness auto
termination
  by (relation "measure nat") auto

declare bit_length.simps [simp del]

text \<open>Rounding to the nearest integer, a tie going to the even one.\<close>

definition round_half_even :: "rat \<Rightarrow> int" where
  "round_half_even x =
     (let f = \<lfloor>x\<rfloor>; d = x - of_int f
      in if d < 1 / 2 then f else if 1 / 2 < d then f + 1 else if even f then f else f + 1)"

text \<open>
  The smallest positive double is \<open>2 ^ -1074\<close>, and every double is a whole multiple of it;
  \<open>2 ^ 1024\<close>, the first power of two that is no double, is \<open>2 ^ 2098\<close> such steps.
\<close>

definition min_exp :: nat where
  "min_exp = 1074"

definition inf_exp :: nat where
  "inf_exp = 2098"

text \<open>
  The double nearest to a rational number (round to nearest, ties to even): counted in
  steps of \<open>2 ^ -1074\<close>, a number of up to 53 binary digits is rounded to a whole number of
  steps, and a longer one to 53 significant digits. A result of magnitude \<open>2 ^ 1024\<close> or more
  is an infinity.
\<close>

definition round_double :: "rat \<Rightarrow> jsnum" where
  "round_double q =
     (let k = q * 2 ^ min_exp;
          sh = bit_length \<lfloor>\<bar>k\<bar>\<rfloor> - 53;
          n = round_half_even (k / 2 ^ sh)
      in if (2::int) ^ inf_exp \<le> \<bar>n\<bar> * 2 ^ sh then (if 0 < q then PosInf else NegInf)
         else Fin (of_int (n * 2 ^ sh) / 2 ^ min_exp))"

text \<open>A rational number is a double when rounding leaves it as it is.\<close>

definition is_double :: "rat \<Rightarrow> bool" where
  "is_double q = (round_double q = Fin q)"

definition js_number :: "jsnum \<Rightarrow> bool" where
  "js_number n = (case n of Fin q \<Rightarrow> is_double q | _ \<Rightarrow> True)"

text \<open>\<open>a + b\<close> on numbers: the exact sum of two finite values, rounded.\<close>

fun jsnum_add :: "jsnum \<Rightarrow> jsnum \<Rightarrow> jsnum" where
  "jsnum_add NaN b = NaN"
| "jsnum_add (Fin a) (Fin b) = round_double (a + b)"
| "jsnum_add (Fin a) b = b"
| "jsnum_add PosInf NaN = NaN"
| "jsnum_add PosInf NegInf = NaN"
| "jsnum_add PosInf b = PosInf"
| "jsnum_add NegInf NaN = NaN"
| "jsnum_add NegInf PosInf = NaN"
| "jsnum_add NegInf b = NegInf"

definition isNaN :: "jsnum \<Rightarrow> bool" where
  "isNaN n = (n = NaN)"

text \<open>Truthiness of a number: \<open>0\<close> and NaN are falsy.\<close>

definition truthy_num :: "jsnum \<Rightarrow> bool" where
  "truthy_num n = (n \<noteq> Fin 0 \<and> n \<noteq> NaN)"

text \<open>The comparisons \<open>n > 0\<close> and \<open>n < 0\<close>.\<close>

definition is_positive :: "jsnum \<Rightarrow> bool" where
  "is_positive n = (case n of Fin k \<Rightarrow> 0 < k | PosInf \<Rightarrow> True | _ \<Rightarrow> False)"

definition is_negative :: "jsnum \<Rightarrow> bool" where
  "is_negative n = (case n of Fin k \<Rightarrow> k < 0 | NegInf \<Rightarrow> True | _ \<Rightarrow> False)"

text \<open>A dynamically typed field (what \<open>typeof\<close> can tell apart).\<close>

datatype js_value = JUndefined | JNull | JBool bool | JNum jsnum | JStr string

text \<open>
  An optional string field is \<open>None\<close> when it is \<open>undefined\<close> or \<open>null\<close>. It is truthy when
  it is present and not the empty string.
\<close>

definition truthy :: "string option \<Rightarrow> bool" where
  "truthy v = (case v of None \<Rightarrow> False | Some s \<Rightarrow> s \<noteq> [])"

text \<open>\<open>a || b\<close> on optional strings, and \<open>a || "literal"\<close>.\<close>

definition js_or :: "string option \<Rightarrow> string option \<Rightarrow> string option" where
  "js_or a b = (if truthy a then a else b)"

definition js_or_str :: "string option \<Rightarrow> string \<Rightarrow> string" where
  "js_or_str a d = (case a of None \<Rightarrow> d | Some s \<Rightarrow> if s \<noteq> [] then s else d)"

text \<open>
  An ordered fallback chain in the words of the design, to compare the code with: the
  first candidate that is present and not empty, and the default when there is none.
\<close>

fun spec_fallback_chain :: "string option list \<Rightarrow> string \<Rightarrow> string" where
  "spec_fallback_chain [] d = d"
| "spec_fallback_chain (None # cs) d = spec_fallback_chain cs d"
| "spec_fallback_chain (Some s # cs) d = (if s = [] then spec_fallback_chain cs d else s)"

text \<open>\<open>a ?? b\<close> on optional values, and \<open>a ?? v\<close> with a value that is always there.\<close>

definition nullish :: "'a option \<Rightarrow> 'a option \<Rightarrow> 'a option" where
  "nullish a b = (case a of None \<Rightarrow> b | Some v \<Rightarrow> Some v)"

definition nullish_or :: "'a option \<Rightarrow> 'a \<Rightarrow> 'a" where
  "nullish_or a d = (case a of None \<Rightarrow> d | Some v \<Rightarrow> v)"

text \<open>The decimal digits of a natural number, as a template literal prints a status code.\<close>

definition digit_char :: "nat \<Rightarrow> char" where
  "digit_char d = ''0123456789'' ! d"

fun decimal :: "nat \<Rightarrow> string" where
  "decimal n = (if 10 \<le> n then decimal (n div 10) @ [digit_char (n mod 10)] else [digit_char n])"

declare decimal.simps [simp del]

text \<open>
  What the JavaScript engine decides and the model takes as given: how \<open>new Date(s)\<close> reads
  a string (the time value in milliseconds since the epoch, or \<open>None\<close> for an invalid date,
  whose \<open>getTime()\<close> is NaN), and how \<open>String(n)\<close> prints a finite number that is not a whole
  number of magnitude up to \<open>2 ^ 53\<close> (the shortest digits that read back as \<open>n\<close>, with an
  exponent from \<open>1e21\<close> on).
\<close>

record JsEngine =
  Date_parse :: "string \<Rightarrow> int option"
  Number_toString :: "rat \<Rightarrow> string"

text \<open>\<open>String(v)\<close>. A whole number of magnitude up to \<open>2 ^ 53\<close> prints all its digits.\<close>

definition String_number :: "JsEngine \<Rightarrow> jsnum \<Rightarrow> string" where
  "String_number js n =
     (case n of
        NaN \<Rightarrow> ''NaN''
      | PosInf \<Rightarrow> ''Infinity''
      | NegInf \<Rightarrow> ''-Infinity''
      | Fin q \<Rightarrow>
          if of_int \<lfloor>q\<rfloor> = q \<and> \<bar>q\<bar> \<le> 2 ^ 53
          then (if 0 \<le> q then decimal (nat \<lfloor>q\<rfloor>) else CHR ''-'' # decimal (nat (- \<lfloor>q\<rfloor>)))
          else Number_toString js q)"

definition String_value :: "JsEngine \<Rightarrow> js_value \<Rightarrow> string" where
  "String_value js v =
     (case v of
        JUndefined \<Rightarrow> ''undefined''
      | JNull \<Rightarrow> ''null''
      | JBool b \<Rightarrow> (if b then ''true'' else ''false'')
      | JNum n \<Rightarrow> String_number js n
      | JStr s \<Rightarrow> s)"

text \<open>
  What a \<open>catch (e: any)\<close> can receive: an \<open>Error\<close> object with its \<open>name\<close> and \<open>message\<close>, or
  a thrown value that has no \<open>message\<close> property, given by its \<open>String(e)\<close> rendering.
\<close>

datatype js_error = ErrorObj string string | Thrown string

section \<open>fetchJson\<close>

text \<open>
  The outcome of \<open>fetch(url)\<close>: the promise rejects (transport failure), or it resolves to
  a response with its \<open>ok\<close> flag, its status and the outcomes of \<open>res.text()\<close> and
  \<open>res.json()\<close>, each of which can reject in turn.
\<close>

record 'a http_response =
  ok :: bool
  status :: nat
  body_text :: "js_error + string"
  body_json :: "js_error + 'a"

datatype 'a fetch_outcome = Rejected js_error | Resolved "'a http_response"

definition fetchJson :: "'a fetch_outcome \<Rightarrow> js_error + 'a" where
  "fetchJson outcome =
     (case outcome of
        Rejected e \<Rightarrow> Inl e
      | Resolved res \<Rightarrow>
          if \<not> ok res
          then (case body_text res of
                  Inl e \<Rightarrow> Inl e
                | Inr text \<Rightarrow>
                    Inl (ErrorObj ''Error''
                          (''HTTP '' @ decimal (status res) @ '': '' @ text)))
          else body_json res)"

section \<open>The canonical record\<close>

text \<open>
  The type declarations of \<open>../types\<close> are not part of the sources at hand. The records
  below carry the fields that \<open>useRecordings.ts\<close> reads and writes, with the names it uses
  (prefixed where two objects share a field name, and \<open>id\<close> written \<open>rec_id\<close>). An optional
  field is \<open>None\<close> when the object does not populate it.
\<close>

datatype source_tag = Phone | Meetings

record RecordingFile =
  f_id :: "string option"
  f_recording_start :: "string option"
  f_recording_end :: "string option"
  f_download_url :: "string option"
  f_file_type :: "string option"
  f_file_size :: js_value

record Owner =
  o_type :: string
  o_id :: "string option"
  o_name :: string

record Site =
  s_id :: string
  s_name :: string

record Recording =
  rec_id :: string
  caller_number :: string
  caller_number_type :: int
  callee_number :: string
  callee_number_type :: int
  date_time :: "string option"
  end_time :: "string option"
  duration :: int
  recording_type :: string
  download_url :: "string option"
  caller_name :: "string option"
  callee_name :: string
  owner :: Owner
  site :: Site
  direction :: string
  disclaimer_status :: "int option"
  source :: "source_tag option"
  topic :: "string option"
  host_name :: "string option"
  host_email :: "string option"
  meetingId :: "string option"
  file_size :: "jsnum option"
  recording_files :: "RecordingFile list option"
  files_count :: "nat option"
  files_types :: "string list option"
  autoDelete :: "bool option"
  autoDeleteDate :: "string option"

text \<open>\<open>ApiResponse\<close>: a page of the phone endpoint, and the envelope the hook stores.\<close>

record ApiResponse =
  api_from :: "string option"
  api_to :: "string option"
  total_records :: "nat option"
  next_page_token :: "string option"
  recordings :: "Recording list option"

text \<open>What \<open>fetchAllPhoneRecordings\<close> and \<open>fetchAllMeetingRecordings\<close> return.\<close>

record Fetched =
  res_from :: string
  res_to :: string
  res_recordings :: "Recording list"

section \<open>fetchAllPhoneRecordings\<close>

definition MAX_PHONE_PAGES :: nat where
  "MAX_PHONE_PAGES = 20"

text \<open>\<open>Math.min(pageSize || 100, 300)\<close> on an integer page size.\<close>

definition zoomPageSize :: "int \<Rightarrow> int" where
  "zoomPageSize pageSize = min (if pageSize = 0 then 100 else pageSize) 300"

text \<open>The query parameters of one page request.\<close>

record PhoneParams =
  p_from :: string
  p_to :: string
  p_page_size :: int
  p_query_date_type :: string
  p_next_page_token :: "string option"

text \<open>The local variables of the \<open>do ... while\<close> loop.\<close>

record LoopVars =
  allRecs :: "Recording list"
  nextToken :: "string option"
  loops :: nat
  apiFrom :: "string option"
  apiTo :: "string option"

definition phone_params :: "string \<Rightarrow> string \<Rightarrow> int \<Rightarrow> LoopVars \<Rightarrow> PhoneParams" where
  "phone_params req_from req_to zps v =
     \<lparr> p_from = req_from, p_to = req_to, p_page_size = zps,
       p_query_date_type = ''start_time'',
       p_next_page_token = (if truthy (nextToken v) then nextToken v else None) \<rparr>"

text \<open>\<open>(apiPage.recordings ?? []).map((r) => ({ ...r, source: "phone" }))\<close>\<close>

definition page_recs :: "ApiResponse \<Rightarrow> Recording list" where
  "page_recs apiPage =
     map (\<lambda>r. r\<lparr>source := Some Phone\<rparr>) (nullish_or (recordings apiPage) [])"

text \<open>The loop body after the page has arrived (lines 57 to 67).\<close>

definition loop_body :: "string \<Rightarrow> string \<Rightarrow> LoopVars \<Rightarrow> ApiResponse \<Rightarrow> LoopVars" where
  "loop_body req_from req_to v apiPage =
     \<lparr> allRecs = allRecs v @ page_recs apiPage,
       nextToken = nullish (next_page_token apiPage) None,
       loops = loops v + 1,
       apiFrom = Some (nullish_or (nullish (apiFrom v) (api_from apiPage)) req_from),
       apiTo = Some (nullish_or (nullish (api_to apiPage) (apiTo v)) req_to) \<rparr>"

text \<open>
  The upstream is the sequence of outcomes of the page requests: \<open>net i\<close> answers the
  request issued after \<open>i\<close> earlier ones. The loop returns its variables (or the exception
  that left it) together with the requests it has issued, oldest first.
\<close>

function phone_loop ::
  "(nat \<Rightarrow> ApiResponse fetch_outcome) \<Rightarrow> string \<Rightarrow> string \<Rightarrow> int \<Rightarrow>
     PhoneParams list \<Rightarrow> LoopVars \<Rightarrow> (js_error + LoopVars) \<times> PhoneParams list" where
  "phone_loop net req_from req_to zps issued v =
     (case fetchJson (net (length issued)) of
        Inl e \<Rightarrow> (Inl e, issued @ [phone_params req_from req_to zps v])
      | Inr apiPage \<Rightarrow>
          if truthy (nextToken (loop_body req_from req_to v apiPage))
             \<and> loops (loop_body req_from req_to v apiPage) < MAX_PHONE_PAGES
          then phone_loop net req_from req_to zps
                 (issued @ [phone_params req_from req_to zps v])
                 (loop_body req_from req_to v apiPage)
          else (Inr (loop_body req_from req_to v apiPage),
                issued @ [phone_params req_from req_to zps v]))"
  by pat_completeness auto
termination
  by (relation "measure (\<lambda>(net, req_from, req_to, zps, issued, v). MAX_PHONE_PAGES - loops v)")
     (auto simp: loop_body_def)

declare phone_loop.simps [simp del]

text \<open>The variables as declared before the loop (lines 37 to 41).\<close>

definition init_vars :: LoopVars where
  "init_vars = \<lparr> allRecs = [], nextToken = None, loops = 0, apiFrom = None, apiTo = None \<rparr>"

definition fetchAllPhoneRecordings ::
  "(nat \<Rightarrow> ApiResponse fetch_outcome) \<Rightarrow> string \<Rightarrow> string \<Rightarrow> int \<Rightarrow>
     (js_error + Fetched) \<times> PhoneParams list" where
  "fetchAllPhoneRecordings net req_from req_to zps =
     (case phone_loop net req_from req_to zps [] init_vars of
        (Inl e, issued) \<Rightarrow> (Inl e, issued)
      | (Inr v, issued) \<Rightarrow>
          (Inr \<lparr> res_from = nullish_or (apiFrom v) req_from,
                 res_to = nullish_or (apiTo v) req_to,
                 res_recordings = allRecs v \<rparr>, issued))"

section \<open>Dates\<close>

text \<open>
  \<open>Date.prototype.toISOString\<close> is fixed by ECMAScript and written out: the proleptic
  Gregorian date of the day number, four digits for the years 0 to 9999 and a sign with
  six digits otherwise.
\<close>

definition pad_nat :: "nat \<Rightarrow> nat \<Rightarrow> string" where
  "pad_nat w n = replicate (w - length (decimal n)) (CHR ''0'') @ decimal n"

definition civil_from_days :: "int \<Rightarrow> int \<times> int \<times> int" where
  "civil_from_days z0 =
     (let z = z0 + 719468;
          era = z div 146097;
          doe = z mod 146097;
          yoe = (doe - doe div 1460 + doe div 36524 - doe div 146096) div 365;
          doy = doe - (365 * yoe + yoe div 4 - yoe div 100);
          mp = (5 * doy + 2) div 153;
          d = doy - (153 * mp + 2) div 5 + 1;
          m = (if mp < 10 then mp + 3 else mp - 9);
          y = yoe + era * 400 + (if m \<le> 2 then 1 else 0)
      in (y, m, d))"

definition year_string :: "int \<Rightarrow> string" where
  "year_string y =
     (if 0 \<le> y \<and> y \<le> 9999 then pad_nat 4 (nat y)
      else (if y < 0 then ''-'' else ''+'') @ pad_nat 6 (nat \<bar>y\<bar>))"

definition toISOString :: "int \<Rightarrow> string" where
  "toISOString t =
     (let tod = t mod 86400000 in
      case civil_from_days (t div 86400000) of
        (y, m, d) \<Rightarrow>
          year_string y @ ''-'' @ pad_nat 2 (nat m) @ ''-'' @ pad_nat 2 (nat d) @ ''T''
          @ pad_nat 2 (nat (tod div 3600000)) @ '':''
          @ pad_nat 2 (nat (tod div 60000 mod 60)) @ '':''
          @ pad_nat 2 (nat (tod div 1000 mod 60)) @ ''.''
          @ pad_nat 3 (nat (tod mod 1000)) @ ''Z'')"

section \<open>fetchAllMeetingRecordings\<close>

record Meeting =
  m_uuid :: "string option"
  m_id :: js_value
  m_topic :: "string option"
  m_start_time :: "string option"
  m_duration :: "int option"
  m_host_id :: "string option"
  m_hostEmail :: "string option"
  m_host_email :: "string option"
  m_owner_email :: "string option"
  m_hostName :: "string option"
  m_owner_name :: "string option"
  m_recording_files :: "RecordingFile list option"
  m_autoDelete :: "bool option"
  m_auto_delete :: "bool option"
  m_autoDeleteDate :: "string option"
  m_auto_delete_date :: "string option"

record MeetingApiResponse =
  mt_from :: "string option"
  mt_to :: "string option"
  meetings :: "Meeting list option"

text \<open>\<open>mm.hostEmail || mm.host_email || mm.owner_email || ""\<close>\<close>

definition hostEmail :: "Meeting \<Rightarrow> string" where
  "hostEmail m =
     js_or_str (js_or (js_or (m_hostEmail m) (m_host_email m)) (m_owner_email m)) []"

text \<open>\<open>mm.hostName || mm.owner_name || hostEmail || mm.topic || "Unknown"\<close>\<close>

definition hostName :: "Meeting \<Rightarrow> string" where
  "hostName m =
     js_or_str
       (js_or (js_or (js_or (m_hostName m) (m_owner_name m)) (Some (hostEmail m))) (m_topic m))
       ''Unknown''"

text \<open>\<open>Array.isArray(m.recording_files) ? m.recording_files : []\<close>\<close>

definition files_of :: "Meeting \<Rightarrow> RecordingFile list" where
  "files_of m = (case m_recording_files m of None \<Rightarrow> [] | Some fs \<Rightarrow> fs)"

text \<open>The loop over the files that fills \<open>starts\<close> (lines 123 to 130).\<close>

fun starts_of :: "(string \<Rightarrow> int option) \<Rightarrow> RecordingFile list \<Rightarrow> int list" where
  "starts_of parse [] = []"
| "starts_of parse (f # fs) =
     (case f_recording_start f of
        None \<Rightarrow> starts_of parse fs
      | Some s \<Rightarrow>
          if s \<noteq> [] then
            (case parse s of
               None \<Rightarrow> starts_of parse fs
             | Some d \<Rightarrow> d # starts_of parse fs)
          else starts_of parse fs)"

text \<open>\<open>starts.sort((a, b) => a.getTime() - b.getTime()); starts[0].toISOString()\<close>\<close>

definition firstStartIso :: "(string \<Rightarrow> int option) \<Rightarrow> RecordingFile list \<Rightarrow> string option" where
  "firstStartIso parse files =
     (case sort (starts_of parse files) of
        [] \<Rightarrow> None
      | d # ds \<Rightarrow> Some (toISOString d))"

text \<open>The reducer of \<open>totalSizeBytes\<close> (lines 137 to 143).\<close>

definition sz_of :: "RecordingFile \<Rightarrow> jsnum" where
  "sz_of f = (case f_file_size f of JNum n \<Rightarrow> if \<not> isNaN n then n else Fin 0 | _ \<Rightarrow> Fin 0)"

definition totalSizeBytes :: "RecordingFile list \<Rightarrow> jsnum" where
  "totalSizeBytes files = foldl (\<lambda>acc f. jsnum_add acc (sz_of f)) (Fin 0) files"

text \<open>\<open>Array.from(new Set(xs))\<close>: the distinct elements in the order they are first seen.\<close>

definition array_from_set :: "'a list \<Rightarrow> 'a list" where
  "array_from_set xs = foldl (\<lambda>acc x. if x \<in> set acc then acc else acc @ [x]) [] xs"

definition fileTypes :: "RecordingFile list \<Rightarrow> string list" where
  "fileTypes files =
     array_from_set (filter (\<lambda>s. length s > 0) (map (\<lambda>f. js_or_str (f_file_type f) []) files))"

text \<open>The object pushed for one meeting (lines 153 to 190).\<close>

definition normalizeMeeting :: "JsEngine \<Rightarrow> Meeting \<Rightarrow> Recording" where
  "normalizeMeeting js m =
     \<lparr> rec_id = js_or_str (m_uuid m) (String_value js (m_id m)),
       caller_number = [],
       caller_number_type = 0,
       callee_number = [],
       callee_number_type = 0,
       date_time = js_or (firstStartIso (Date_parse js) (files_of m)) (m_start_time m),
       end_time = None,
       duration = nullish_or (m_duration m) 0,
       recording_type = ''Meeting'',
       download_url = None,
       caller_name = m_topic m,
       callee_name = js_or_str (Some (hostEmail m)) (hostName m),
       owner = \<lparr> o_type = ''user'', o_id = m_host_id m,
                 o_name = js_or_str (js_or (Some (hostName m)) (Some (hostEmail m))) ''Unknown'' \<rparr>,
       site = \<lparr> s_id = [], s_name = ''Meeting'' \<rparr>,
       direction = ''meeting'',
       disclaimer_status = None,
       source = Some Meetings,
       topic = m_topic m,
       host_name = Some (hostName m),
       host_email = Some (hostEmail m),
       meetingId = m_uuid m,
       file_size = (if truthy_num (totalSizeBytes (files_of m))
                    then Some (totalSizeBytes (files_of m)) else None),
       recording_files = Some (files_of m),
       files_count = Some (length (files_of m)),
       files_types = Some (fileTypes (files_of m)),
       autoDelete = nullish (m_autoDelete m) (m_auto_delete m),
       autoDeleteDate = nullish (m_autoDeleteDate m) (m_auto_delete_date m) \<rparr>"

definition fetchAllMeetingRecordings ::
  "JsEngine \<Rightarrow> MeetingApiResponse fetch_outcome \<Rightarrow> string \<Rightarrow> string \<Rightarrow>
     js_error + Fetched" where
  "fetchAllMeetingRecordings js outcome req_from req_to =
     (case fetchJson outcome of
        Inl e \<Rightarrow> Inl e
      | Inr api \<Rightarrow>
          Inr \<lparr> res_from = nullish_or (mt_from api) req_from,
                res_to = nullish_or (mt_to api) req_to,
                res_recordings = map (normalizeMeeting js) (nullish_or (meetings api) []) \<rparr>)"

section \<open>fetchRecordings\<close>

text \<open>The three pieces of state of the hook.\<close>

record HookState =
  data :: "ApiResponse option"
  loading :: bool
  error :: "string option"

text \<open>
  What the hook reaches outside itself: the answers of the two endpoints, the demo
  generator of \<open>../utils/demoRecordings\<close> (not among the sources; it returns records or
  throws) and the JavaScript engine.
\<close>

record Env =
  phone_net :: "nat \<Rightarrow> ApiResponse fetch_outcome"
  meeting_net :: "MeetingApiResponse fetch_outcome"
  generateDemoRecordings :: "string \<Rightarrow> string \<Rightarrow> js_error + Recording list"
  engine :: JsEngine

definition envelope :: "string \<Rightarrow> string \<Rightarrow> Recording list \<Rightarrow> ApiResponse" where
  "envelope f t recs =
     \<lparr> api_from = Some f, api_to = Some t, total_records = Some (length recs),
       next_page_token = None, recordings = Some recs \<rparr>"

text \<open>The body of the \<open>try\<close> block: the envelope passed to \<open>setData\<close>, or the exception.\<close>

definition try_block ::
  "Env \<Rightarrow> string \<Rightarrow> string \<Rightarrow> int \<Rightarrow> string \<Rightarrow> bool \<Rightarrow> js_error + ApiResponse" where
  "try_block env req_from req_to pageSize source_filter demoMode =
     (if demoMode then
        (case generateDemoRecordings env req_from req_to of
           Inl e \<Rightarrow> Inl e
         | Inr recs \<Rightarrow> Inr (envelope req_from req_to recs))
      else if source_filter = ''phone'' then
        (case fst (fetchAllPhoneRecordings (phone_net env) req_from req_to
                     (zoomPageSize pageSize)) of
           Inl e \<Rightarrow> Inl e
         | Inr r \<Rightarrow> Inr (envelope (res_from r) (res_to r) (res_recordings r)))
      else
        (case fetchAllMeetingRecordings (engine env) (meeting_net env) req_from req_to of
           Inl e \<Rightarrow> Inl e
         | Inr r \<Rightarrow> Inr (envelope (res_from r) (res_to r) (res_recordings r))))"

text \<open>\<open>String(e)\<close> on an \<open>Error\<close> object (\<open>Error.prototype.toString\<close>).\<close>

definition error_toString :: "string \<Rightarrow> string \<Rightarrow> string" where
  "error_toString name msg =
     (if name = [] then msg else if msg = [] then name else name @ '': '' @ msg)"

text \<open>\<open>e?.message || String(e)\<close>\<close>

definition error_text :: "js_error \<Rightarrow> string" where
  "error_text e =
     (case e of
        ErrorObj name msg \<Rightarrow> if msg \<noteq> [] then msg else error_toString name msg
      | Thrown s \<Rightarrow> s)"

definition fetchRecordings ::
  "Env \<Rightarrow> string \<Rightarrow> string \<Rightarrow> int \<Rightarrow> string \<Rightarrow> bool \<Rightarrow> HookState \<Rightarrow> HookState" where
  "fetchRecordings env req_from req_to pageSize source_filter demoMode st =
     (let st1 = st\<lparr>loading := True\<rparr>;
          st2 = st1\<lparr>error := None\<rparr>;
          st3 = (case try_block env req_from req_to pageSize source_filter demoMode of
                   Inr d \<Rightarrow> st2\<lparr>data := Some d\<rparr>
                 | Inl e \<Rightarrow> st2\<lparr>error := Some (error_text e)\<rparr>)
      in st3\<lparr>loading := False\<rparr>)"

section \<open>Example data\<close>

text \<open>Concrete upstream answers, used where a property is shown on an example.\<close>

definition example_recording :: "string \<Rightarrow> Recording" where
  "example_recording i =
     \<lparr> rec_id = i,
       caller_number = ''+15550100'',
       caller_number_type = 1,
       callee_number = ''+15550199'',
       callee_number_type = 1,
       date_time = Some ''2025-11-05T09:00:00Z'',
       end_time = Some ''2025-11-05T09:01:00Z'',
       duration = 60,
       recording_type = ''Automatic'',
       download_url = Some ''https://zoom.us/v2/phone/recording/download/abc'',
       caller_name = Some ''Ann'',
       callee_name = ''Bob'',
       owner = \<lparr> o_type = ''user'', o_id = Some ''u1'', o_name = ''Bob'' \<rparr>,
       site = \<lparr> s_id = ''s1'', s_name = ''Main Site'' \<rparr>,
       direction = ''inbound'',
       disclaimer_status = None,
       source = None,
       topic = None,
       host_name = None,
       host_email = None,
       meetingId = None,
       file_size = None,
       recording_files = None,
       files_count = None,
       files_types = None,
       autoDelete = None,
       autoDeleteDate = None \<rparr>"

definition example_page ::
  "string option \<Rightarrow> string option \<Rightarrow> string option \<Rightarrow> Recording list \<Rightarrow> ApiResponse" where
  "example_page f t cursor recs =
     \<lparr> api_from = f, api_to = t, total_records = None, next_page_token = cursor,
       recordings = Some recs \<rparr>"

definition http_ok :: "'a \<Rightarrow> 'a fetch_outcome" where
  "http_ok body =
     Resolved \<lparr> ok = True, status = 200, body_text = Inr [], body_json = Inr body \<rparr>"

definition http_failure :: "nat \<Rightarrow> string \<Rightarrow> 'a fetch_outcome" where
  "http_failure code txt =
     Resolved \<lparr> ok = False, status = code, body_text = Inr txt,
                body_json = Inl (ErrorObj ''SyntaxError'' ''Unexpected token'') \<rparr>"

text \<open>An upstream that hands out a cursor with every page, forever.\<close>

definition endless_page :: "nat \<Rightarrow> ApiResponse" where
  "endless_page i = example_page None None (Some ''more'') [example_recording ''r'']"

definition endless_net :: "nat \<Rightarrow> ApiResponse fetch_outcome" where
  "endless_net i = http_ok (endless_page i)"

text \<open>Three pages with the records [a, b], [c] and [d, e].\<close>

definition three_pages :: "ApiResponse list" where
  "three_pages =
     [example_page (Some ''2025-11-01'') (Some ''2025-11-13'') (Some ''t1'')
        [example_recording ''a'', example_recording ''b''],
      example_page (Some ''2025-11-01'') (Some ''2025-11-13'') (Some ''t2'')
        [example_recording ''c''],
      example_page (Some ''2025-11-01'') (Some ''2025-11-13'') None
        [example_recording ''d'', example_recording ''e'']]"

definition three_pages_net :: "nat \<Rightarrow> ApiResponse fetch_outcome" where
  "three_pages_net i =
     (if i < 3 then http_ok (three_pages ! i) else http_failure 400 ''no such page'')"

definition three_pages_requests :: "PhoneParams list" where
  "three_pages_requests =
     [\<lparr> p_from = ''2025-11-01'', p_to = ''2025-11-13'', p_page_size = 100,
        p_query_date_type = ''start_time'', p_next_page_token = None \<rparr>,
      \<lparr> p_from = ''2025-11-01'', p_to = ''2025-11-13'', p_page_size = 100,
        p_query_date_type = ''start_time'', p_next_page_token = Some ''t1'' \<rparr>,
      \<lparr> p_from = ''2025-11-01'', p_to = ''2025-11-13'', p_page_size = 100,
        p_query_date_type = ''start_time'', p_next_page_token = Some ''t2'' \<rparr>]"

definition three_pages_result :: Fetched where
  "three_pages_result =
     \<lparr> res_from = ''2025-11-01'', res_to = ''2025-11-13'',
       res_recordings =
         map (\<lambda>i. (example_recording i)\<lparr>source := Some Phone\<rparr>)
           [''a'', ''b'', ''c'', ''d'', ''e''] \<rparr>"

text \<open>The second of three pages fails with HTTP 500.\<close>

definition failing_net :: "nat \<Rightarrow> ApiResponse fetch_outcome" where
  "failing_net i =
     (if i = 0 then
        http_ok (example_page None None (Some ''t1'')
                   [example_recording ''a'', example_recording ''b''])
      else if i = 1 then http_failure 500 ''upstream down''
      else http_ok (example_page None None None [example_recording ''c'']))"

text \<open>Two pages, each echoing its own part of the requested range.\<close>

definition drifting_first_page :: ApiResponse where
  "drifting_first_page = example_page (Some ''2025-11-01'') (Some ''2025-11-07'') (Some ''t1'') []"

definition drifting_second_page :: ApiResponse where
  "drifting_second_page = example_page (Some ''2025-11-08'') (Some ''2025-11-13'') None []"

definition drifting_net :: "nat \<Rightarrow> ApiResponse fetch_outcome" where
  "drifting_net i = (if i = 0 then http_ok drifting_first_page else http_ok drifting_second_page)"

definition drifting_requests :: "PhoneParams list" where
  "drifting_requests =
     [\<lparr> p_from = ''2025-11-01'', p_to = ''2025-11-30'', p_page_size = 100,
        p_query_date_type = ''start_time'', p_next_page_token = None \<rparr>,
      \<lparr> p_from = ''2025-11-01'', p_to = ''2025-11-30'', p_page_size = 100,
        p_query_date_type = ''start_time'', p_next_page_token = Some ''t1'' \<rparr>]"

text \<open>A phone page whose record carries meeting fields.\<close>

definition topic_page :: ApiResponse where
  "topic_page =
     example_page None None None
       [(example_recording ''p1'')
          \<lparr> topic := Some ''Weekly sync'', host_email := Some ''host@example.com'',
            files_types := Some [''MP4''] \<rparr>]"

definition topic_net :: "nat \<Rightarrow> ApiResponse fetch_outcome" where
  "topic_net i = http_ok topic_page"

text \<open>Meetings and their files.\<close>

definition example_file :: "string option \<Rightarrow> js_value \<Rightarrow> string option \<Rightarrow> RecordingFile" where
  "example_file start sz ty =
     \<lparr> f_id = Some ''file-1'', f_recording_start = start, f_recording_end = None,
       f_download_url = Some ''https://example.com/download'', f_file_type = ty,
       f_file_size = sz \<rparr>"

definition example_meeting :: "RecordingFile list \<Rightarrow> Meeting" where
  "example_meeting fs =
     \<lparr> m_uuid = Some ''dummy-uuid'', m_id = JNum (Fin 123456789),
       m_topic = Some ''Test Meeting'', m_start_time = Some ''2025-11-05T08:55:00Z'',
       m_duration = Some 45, m_host_id = Some ''host-123'',
       m_hostEmail = None, m_host_email = Some ''host@example.com'', m_owner_email = None,
       m_hostName = None, m_owner_name = None, m_recording_files = Some fs,
       m_autoDelete = None, m_auto_delete = None,
       m_autoDeleteDate = None, m_auto_delete_date = None \<rparr>"

text \<open>A session whose only identity field is \<open>owner_email\<close>.\<close>

definition owner_email_only :: Meeting where
  "owner_email_only =
     \<lparr> m_uuid = None, m_id = JNum (Fin 42), m_topic = None, m_start_time = None,
       m_duration = None, m_host_id = None,
       m_hostEmail = None, m_host_email = None, m_owner_email = Some ''a@x.com'',
       m_hostName = None, m_owner_name = None, m_recording_files = None,
       m_autoDelete = None, m_auto_delete = None,
       m_autoDeleteDate = None, m_auto_delete_date = None \<rparr>"

text \<open>A date parser that knows two timestamps and rejects everything else.\<close>

definition example_parse :: "string \<Rightarrow> int option" where
  "example_parse s =
     (if s = ''2025-11-05T10:00Z'' then Some 1762336800000
      else if s = ''2025-11-05T09:00Z'' then Some 1762333200000
      else None)"

text \<open>
  An engine with that parser. No number below needs \<open>Number_toString\<close>: the ids are small
  whole numbers.
\<close>

definition example_engine :: JsEngine where
  "example_engine = \<lparr> Date_parse = example_parse, Number_toString = (\<lambda>q. []) \<rparr>"

definition start_files :: "RecordingFile list" where
  "start_files =
     [example_file (Some ''2025-11-05T10:00Z'') JUndefined None,
      example_file (Some ''2025-11-05T09:00Z'') JUndefined None,
      example_file (Some ''invalid'') JUndefined None]"

definition sized_files :: "RecordingFile list" where
  "sized_files =
     [example_file None (JNum (Fin 100)) (Some ''MP4''),
      example_file None (JNum NaN) (Some ''MP4''),
      example_file None (JStr ''x'') (Some ''M4A''),
      example_file None (JNum (Fin 50)) None]"


definition cancelling_files :: "RecordingFile list" where
  "cancelling_files =
     [example_file None (JNum (Fin 5)) None, example_file None (JNum (Fin (- 5))) None]"

definition meetings_ok :: "MeetingApiResponse fetch_outcome" where
  "meetings_ok =
     http_ok \<lparr> mt_from = Some ''2025-11-01'', mt_to = Some ''2025-11-13'',
               meetings = Some [example_meeting start_files, owner_email_only] \<rparr>"

text \<open>A hook that talks to the failing phone upstream, with a result from an earlier fetch.\<close>

definition failing_env :: Env where
  "failing_env =
     \<lparr> phone_net = failing_net, meeting_net = meetings_ok,
       generateDemoRecordings = (\<lambda>f t. Inr []), engine = example_engine \<rparr>"

definition earlier_state :: HookState where
  "earlier_state =
     \<lparr> data = Some (envelope ''2025-10-01'' ''2025-10-31'' [example_recording ''old'']),
       loading = False, error = None \<rparr>"

section \<open>Properties of the pagination loop\<close>

lemma nullish_None [simp]: "nullish a None = a"
  by (simp add: nullish_def split: option.splits)

lemma loop_body_simps [simp]:
  "allRecs (loop_body f t v p) = allRecs v @ page_recs p"
  "nextToken (loop_body f t v p) = next_page_token p"
  "loops (loop_body f t v p) = Suc (loops v)"
  "apiFrom (loop_body f t v p) = Some (nullish_or (nullish (apiFrom v) (api_from p)) f)"
  "apiTo (loop_body f t v p) = Some (nullish_or (nullish (api_to p) (apiTo v)) t)"
  by (simp_all add: loop_body_def)

lemma phone_loop_fail:
  "fetchJson (net (length issued)) = Inl e \<Longrightarrow>
   phone_loop net f t z issued v = (Inl e, issued @ [phone_params f t z v])"
  by (subst phone_loop.simps) simp

lemma phone_loop_stop:
  "fetchJson (net (length issued)) = Inr p \<Longrightarrow>
   \<not> (truthy (next_page_token p) \<and> Suc (loops v) < MAX_PHONE_PAGES) \<Longrightarrow>
   phone_loop net f t z issued v = (Inr (loop_body f t v p), issued @ [phone_params f t z v])"
  by (subst phone_loop.simps) auto

lemma phone_loop_continue:
  "fetchJson (net (length issued)) = Inr p \<Longrightarrow>
   truthy (next_page_token p) \<Longrightarrow> Suc (loops v) < MAX_PHONE_PAGES \<Longrightarrow>
   phone_loop net f t z issued v =
     phone_loop net f t z (issued @ [phone_params f t z v]) (loop_body f t v p)"
  by (subst phone_loop.simps) simp

text \<open>Every walk: the requests issued, all but the last answered by a page with a cursor.\<close>

lemma phone_loop_walk:
  "phone_loop net f t z issued v = (r, issued') \<Longrightarrow>
   \<exists>ps. length issued' = Suc (length issued + length ps)
      \<and> (\<forall>i<length ps. fetchJson (net (length issued + i)) = Inr (ps ! i)
                          \<and> truthy (next_page_token (ps ! i)))
      \<and> loops v + length ps < max (Suc (loops v)) MAX_PHONE_PAGES
      \<and> (case r of
            Inl e \<Rightarrow> fetchJson (net (length issued + length ps)) = Inl e
          | Inr v' \<Rightarrow> (\<exists>p. fetchJson (net (length issued + length ps)) = Inr p
                        \<and> v' = foldl (loop_body f t) v (ps @ [p])
                        \<and> (\<not> truthy (next_page_token p)
                             \<or> Suc (loops v + length ps) \<ge> MAX_PHONE_PAGES)))"
proof (induction net f t z issued v arbitrary: r issued' rule: phone_loop.induct)
  case (1 net f t z issued v)
  show ?case
  proof (cases "fetchJson (net (length issued))")
    case (Inl e)
    from phone_loop_fail [where net = net and issued = issued, OF Inl] "1.prems"
    have "r = Inl e" "issued' = issued @ [phone_params f t z v]" by simp_all
    with Inl show ?thesis by (intro exI [of _ "[]"]) simp
  next
    case (Inr p)
    show ?thesis
    proof (cases "truthy (next_page_token p) \<and> Suc (loops v) < MAX_PHONE_PAGES")
      case False
      from phone_loop_stop [where net = net and issued = issued, OF Inr False] "1.prems"
      have "r = Inr (loop_body f t v p)" "issued' = issued @ [phone_params f t z v]"
        by simp_all
      with Inr False show ?thesis by (intro exI [of _ "[]"]) auto
    next
      case True
      then have tr: "truthy (next_page_token p)" and lt: "Suc (loops v) < MAX_PHONE_PAGES"
        by simp_all
      let ?issued1 = "issued @ [phone_params f t z v]"
      let ?v1 = "loop_body f t v p"
      from phone_loop_continue [where net = net and issued = issued, OF Inr tr lt] "1.prems"
      have run: "phone_loop net f t z ?issued1 ?v1 = (r, issued')" by simp
      have cond: "truthy (nextToken ?v1) \<and> loops ?v1 < MAX_PHONE_PAGES"
        using tr lt by simp
      from "1.IH" [OF Inr cond run]
      obtain ps where
        len: "length issued' = Suc (length ?issued1 + length ps)" and
        pages: "\<forall>i<length ps. fetchJson (net (length ?issued1 + i)) = Inr (ps ! i)
                  \<and> truthy (next_page_token (ps ! i))" and
        bound: "loops ?v1 + length ps < max (Suc (loops ?v1)) MAX_PHONE_PAGES" and
        fin: "(case r of
            Inl e \<Rightarrow> fetchJson (net (length ?issued1 + length ps)) = Inl e
          | Inr v' \<Rightarrow> (\<exists>q. fetchJson (net (length ?issued1 + length ps)) = Inr q
                        \<and> v' = foldl (loop_body f t) ?v1 (ps @ [q])
                        \<and> (\<not> truthy (next_page_token q)
                             \<or> Suc (loops ?v1 + length ps) \<ge> MAX_PHONE_PAGES)))"
        by blast
      have pages': "\<forall>i<length (p # ps). fetchJson (net (length issued + i)) = Inr ((p # ps) ! i)
                  \<and> truthy (next_page_token ((p # ps) ! i))"
      proof (intro allI impI)
        fix i assume "i < length (p # ps)"
        then show "fetchJson (net (length issued + i)) = Inr ((p # ps) ! i)
                  \<and> truthy (next_page_token ((p # ps) ! i))"
          using Inr tr pages by (cases i) auto
      qed
      show ?thesis
      proof (intro exI [of _ "p # ps"] conjI)
        show "length issued' = Suc (length issued + length (p # ps))"
          using len by simp
        show "\<forall>i<length (p # ps). fetchJson (net (length issued + i)) = Inr ((p # ps) ! i)
                  \<and> truthy (next_page_token ((p # ps) ! i))"
          by (rule pages')
        show "loops v + length (p # ps) < max (Suc (loops v)) MAX_PHONE_PAGES"
          using bound lt by simp
        show "case r of
            Inl e \<Rightarrow> fetchJson (net (length issued + length (p # ps))) = Inl e
          | Inr v' \<Rightarrow> (\<exists>q. fetchJson (net (length issued + length (p # ps))) = Inr q
                        \<and> v' = foldl (loop_body f t) v ((p # ps) @ [q])
                        \<and> (\<not> truthy (next_page_token q)
                             \<or> Suc (loops v + length (p # ps)) \<ge> MAX_PHONE_PAGES))"
          using fin by (cases r) auto
      qed
    qed
  qed
qed


lemma foldl_loop_body_allRecs:
  "allRecs (foldl (loop_body f t) v ps) = allRecs v @ concat (map page_recs ps)"
  by (induction ps arbitrary: v) simp_all

lemma foldl_loop_body_apiFrom_kept:
  "apiFrom v = Some a \<Longrightarrow> apiFrom (foldl (loop_body f t) v ps) = Some a"
  by (induction ps arbitrary: v) (simp_all add: nullish_def nullish_or_def)

lemma foldl_loop_body_apiFrom_first:
  "apiFrom v = None \<Longrightarrow>
   apiFrom (foldl (loop_body f t) v (p # ps)) = Some (nullish_or (api_from p) f)"
  by (simp add: foldl_loop_body_apiFrom_kept nullish_def)

lemma init_vars_simps [simp]:
  "allRecs init_vars = []" "nextToken init_vars = None" "loops init_vars = 0"
  "apiFrom init_vars = None" "apiTo init_vars = None"
  by (simp_all add: init_vars_def)

lemma fetchAllPhoneRecordings_walk:
  assumes "fetchAllPhoneRecordings net f t z = (r, issued)"
  shows "\<exists>ps. length issued = Suc (length ps) \<and> length ps < MAX_PHONE_PAGES
      \<and> (\<forall>i<length ps. fetchJson (net i) = Inr (ps ! i) \<and> truthy (next_page_token (ps ! i)))
      \<and> (case r of
            Inl e \<Rightarrow> fetchJson (net (length ps)) = Inl e
          | Inr res \<Rightarrow> (\<exists>p. fetchJson (net (length ps)) = Inr p
                        \<and> res_recordings res = concat (map page_recs (ps @ [p]))
                        \<and> res_from res = nullish_or (api_from (hd (ps @ [p]))) f
                        \<and> res_to res
                            = nullish_or (apiTo (foldl (loop_body f t) init_vars (ps @ [p]))) t
                        \<and> (\<not> truthy (next_page_token p) \<or> Suc (length ps) = MAX_PHONE_PAGES)))"
proof -
  obtain r0 where run: "phone_loop net f t z [] init_vars = (r0, issued)"
    and r: "r = (case r0 of Inl e \<Rightarrow> Inl e
                 | Inr v \<Rightarrow> Inr \<lparr> res_from = nullish_or (apiFrom v) f,
                                    res_to = nullish_or (apiTo v) t,
                                    res_recordings = allRecs v \<rparr>)"
    using assms
    by (cases "phone_loop net f t z [] init_vars")
       (auto simp: fetchAllPhoneRecordings_def split: sum.splits)
  have "\<exists>ps. length issued = Suc (length ps)
      \<and> (\<forall>i<length ps. fetchJson (net i) = Inr (ps ! i) \<and> truthy (next_page_token (ps ! i)))
      \<and> length ps < MAX_PHONE_PAGES
      \<and> (case r0 of
            Inl e \<Rightarrow> fetchJson (net (length ps)) = Inl e
          | Inr v' \<Rightarrow> (\<exists>p. fetchJson (net (length ps)) = Inr p
                        \<and> v' = foldl (loop_body f t) init_vars (ps @ [p])
                        \<and> (\<not> truthy (next_page_token p) \<or> Suc (length ps) \<ge> MAX_PHONE_PAGES)))"
    using phone_loop_walk [OF run] by (simp add: MAX_PHONE_PAGES_def cong: sum.case_cong)
  then obtain ps where
    len: "length issued = Suc (length ps)" and
    pages: "\<forall>i<length ps. fetchJson (net i) = Inr (ps ! i) \<and> truthy (next_page_token (ps ! i))" and
    bound: "length ps < MAX_PHONE_PAGES" and
    fin: "(case r0 of
            Inl e \<Rightarrow> fetchJson (net (length ps)) = Inl e
          | Inr v' \<Rightarrow> (\<exists>p. fetchJson (net (length ps)) = Inr p
                        \<and> v' = foldl (loop_body f t) init_vars (ps @ [p])
                        \<and> (\<not> truthy (next_page_token p) \<or> Suc (length ps) \<ge> MAX_PHONE_PAGES)))"
    by blast
  show ?thesis
  proof (intro exI [of _ ps] conjI)
    show "length issued = Suc (length ps)" by (rule len)
    show "length ps < MAX_PHONE_PAGES" by (rule bound)
    show "\<forall>i<length ps. fetchJson (net i) = Inr (ps ! i) \<and> truthy (next_page_token (ps ! i))"
      by (rule pages)
    show "case r of
            Inl e \<Rightarrow> fetchJson (net (length ps)) = Inl e
          | Inr res \<Rightarrow> (\<exists>p. fetchJson (net (length ps)) = Inr p
                        \<and> res_recordings res = concat (map page_recs (ps @ [p]))
                        \<and> res_from res = nullish_or (api_from (hd (ps @ [p]))) f
                        \<and> res_to res
                            = nullish_or (apiTo (foldl (loop_body f t) init_vars (ps @ [p]))) t
                        \<and> (\<not> truthy (next_page_token p) \<or> Suc (length ps) = MAX_PHONE_PAGES))"
    proof (cases r0)
      case (Inl e)
      with fin r show ?thesis by simp
    next
      case (Inr v')
      with fin obtain p where
        p: "fetchJson (net (length ps)) = Inr p" and
        v': "v' = foldl (loop_body f t) init_vars (ps @ [p])" and
        stop: "\<not> truthy (next_page_token p) \<or> Suc (length ps) \<ge> MAX_PHONE_PAGES"
        by auto
      have recs: "allRecs v' = concat (map page_recs (ps @ [p]))"
        unfolding v' foldl_loop_body_allRecs by simp
      have "apiFrom (foldl (loop_body f t) init_vars (hd (ps @ [p]) # tl (ps @ [p])))
              = Some (nullish_or (api_from (hd (ps @ [p]))) f)"
        by (rule foldl_loop_body_apiFrom_first) simp
      then have "apiFrom v' = Some (nullish_or (api_from (hd (ps @ [p]))) f)"
        unfolding v' by simp
      moreover have "nullish_or (apiTo v') t
                      = nullish_or (apiTo (foldl (loop_body f t) init_vars (ps @ [p]))) t"
        unfolding v' by simp
      ultimately show ?thesis using Inr r p recs stop bound
        by (auto simp: nullish_or_def)
    qed
  qed
qed

text \<open>The \<open>to\<close> that the loop holds after some pages: the one of the last page that has one.\<close>

lemma foldl_loop_body_apiTo:
  "ps \<noteq> [] \<Longrightarrow>
   apiTo (foldl (loop_body f t) v ps)
     = Some (if List.map_filter api_to ps = [] then nullish_or (apiTo v) t
             else last (List.map_filter api_to ps))"
proof (induction ps rule: rev_induct)
  case Nil
  then show ?case by simp
next
  case (snoc p ps)
  show ?case
  proof (cases "ps = []")
    case True
    then show ?thesis
      by (cases "api_to p") (simp_all add: List.map_filter_def nullish_def nullish_or_def)
  next
    case False
    with snoc.IH show ?thesis
      by (cases "api_to p") (simp_all add: List.map_filter_def nullish_def nullish_or_def)
  qed
qed

text \<open>What the loop sends: the requests it issues, one after the other.\<close>

lemma phone_loop_requests:
  "phone_loop net f t z issued v = (r, issued') \<Longrightarrow>
   \<exists>n. length issued' = length issued + Suc n
     \<and> take (length issued) issued' = issued
     \<and> issued' ! length issued = phone_params f t z v
     \<and> (\<forall>i<n. \<exists>p. fetchJson (net (length issued + i)) = Inr p
                  \<and> issued' ! (length issued + Suc i)
                      = \<lparr> p_from = f, p_to = t, p_page_size = z,
                          p_query_date_type = ''start_time'',
                          p_next_page_token = next_page_token p \<rparr>)"
proof (induction net f t z issued v arbitrary: r issued' rule: phone_loop.induct)
  case (1 net f t z issued v)
  let ?x = "phone_params f t z v"
  show ?case
  proof (cases "fetchJson (net (length issued))")
    case (Inl e)
    from phone_loop_fail [where net = net and issued = issued, OF Inl] "1.prems"
    have "issued' = issued @ [?x]" by simp
    then show ?thesis by (intro exI [of _ 0]) simp
  next
    case (Inr p)
    show ?thesis
    proof (cases "truthy (next_page_token p) \<and> Suc (loops v) < MAX_PHONE_PAGES")
      case False
      from phone_loop_stop [where net = net and issued = issued, OF Inr False] "1.prems"
      have "issued' = issued @ [?x]" by simp
      then show ?thesis by (intro exI [of _ 0]) simp
    next
      case True
      then have tr: "truthy (next_page_token p)" and lt: "Suc (loops v) < MAX_PHONE_PAGES"
        by simp_all
      let ?issued1 = "issued @ [?x]"
      let ?v1 = "loop_body f t v p"
      from phone_loop_continue [where net = net and issued = issued, OF Inr tr lt] "1.prems"
      have run: "phone_loop net f t z ?issued1 ?v1 = (r, issued')" by simp
      have cond: "truthy (nextToken ?v1) \<and> loops ?v1 < MAX_PHONE_PAGES"
        using tr lt by simp
      from "1.IH" [OF Inr cond run]
      obtain n where
        len: "length issued' = length ?issued1 + Suc n" and
        pre: "take (length ?issued1) issued' = ?issued1" and
        nxt: "issued' ! length ?issued1 = phone_params f t z ?v1" and
        rest: "\<forall>i<n. \<exists>q. fetchJson (net (length ?issued1 + i)) = Inr q
                  \<and> issued' ! (length ?issued1 + Suc i)
                      = \<lparr> p_from = f, p_to = t, p_page_size = z,
                          p_query_date_type = ''start_time'',
                          p_next_page_token = next_page_token q \<rparr>"
        by blast
      have pre': "take (length issued) issued' = issued"
      proof -
        have "take (length issued) issued' = take (length issued) (take (length ?issued1) issued')"
          by (simp add: min_def)
        also have "\<dots> = issued" unfolding pre by simp
        finally show ?thesis .
      qed
      have first: "issued' ! length issued = ?x"
      proof -
        have "issued' ! length issued = take (length ?issued1) issued' ! length issued"
          by simp
        also have "\<dots> = ?x" unfolding pre by simp
        finally show ?thesis .
      qed
      have step: "\<exists>q. fetchJson (net (length issued + i)) = Inr q
                  \<and> issued' ! (length issued + Suc i)
                      = \<lparr> p_from = f, p_to = t, p_page_size = z,
                          p_query_date_type = ''start_time'',
                          p_next_page_token = next_page_token q \<rparr>"
        if "i < Suc n" for i
      proof (cases i)
        case 0
        with Inr nxt tr show ?thesis by (simp add: phone_params_def)
      next
        case (Suc j)
        with that have "j < n" by simp
        with rest Suc show ?thesis by simp
      qed
      show ?thesis
        using len pre' first step by (intro exI [of _ "Suc n"]) simp
    qed
  qed
qed

text \<open>
  The requests of a walk: the first carries no cursor, and each later one carries the
  cursor of the page that answered the request before it; all carry the range, the page
  size and \<open>query_date_type=start_time\<close>.
\<close>

lemma cursor_threading:
  assumes "fetchAllPhoneRecordings net req_from req_to zps = (r, issued)"
  shows "issued \<noteq> []
       \<and> issued ! 0 = \<lparr> p_from = req_from, p_to = req_to, p_page_size = zps,
                        p_query_date_type = ''start_time'', p_next_page_token = None \<rparr>
       \<and> (\<forall>i. Suc i < length issued \<longrightarrow>
             (\<exists>p. fetchJson (net i) = Inr p
                \<and> issued ! Suc i
                    = \<lparr> p_from = req_from, p_to = req_to, p_page_size = zps,
                        p_query_date_type = ''start_time'',
                        p_next_page_token = next_page_token p \<rparr>))"
proof -
  obtain r0 where run: "phone_loop net req_from req_to zps [] init_vars = (r0, issued)"
    using assms
    by (cases "phone_loop net req_from req_to zps [] init_vars")
       (auto simp: fetchAllPhoneRecordings_def split: sum.splits)
  from phone_loop_requests [OF run]
  show ?thesis by (auto simp: phone_params_def truthy_def)
qed

section \<open>The paginator on examples\<close>

lemma fetchJson_http_ok [simp]: "fetchJson (http_ok b) = Inr b"
  by (simp add: fetchJson_def http_ok_def)

lemma fetchJson_http_failure [simp]:
  "fetchJson (http_failure code txt)
     = Inl (ErrorObj ''Error'' (''HTTP '' @ decimal code @ '': '' @ txt))"
  by (simp add: fetchJson_def http_failure_def)

lemmas run_defs = fetchAllPhoneRecordings_def phone_loop.simps example_page_def
  phone_params_def truthy_def MAX_PHONE_PAGES_def page_recs_def nullish_or_def nullish_def
  loop_body_def init_vars_def

lemma three_pages_run:
  "fetchAllPhoneRecordings three_pages_net ''2025-11-01'' ''2025-11-13'' 100
     = (Inr three_pages_result, three_pages_requests)"
  by (simp add: run_defs three_pages_net_def three_pages_def three_pages_result_def three_pages_requests_def)

lemma failing_run:
  "fetchAllPhoneRecordings failing_net ''2025-11-01'' ''2025-11-13'' 100
     = (Inl (ErrorObj ''Error'' ''HTTP 500: upstream down''), take 2 three_pages_requests)"
  by (simp add: run_defs failing_net_def three_pages_requests_def decimal.simps digit_char_def)



section \<open>Claims about the paginator\<close>

lemma page_recs_unfold:
  "page_recs p = map (\<lambda>r. r\<lparr>source := Some Phone\<rparr>)
                   (case recordings p of None \<Rightarrow> [] | Some rs \<Rightarrow> rs)"
  by (simp add: page_recs_def nullish_or_def)

text \<open>Whatever the upstream answers, a walk issues at most 20 requests.\<close>

lemma requests_at_most_cap:
  "length (snd (fetchAllPhoneRecordings net f t z)) \<le> 20"
proof -
  obtain r issued where run: "fetchAllPhoneRecordings net f t z = (r, issued)"
    by (cases "fetchAllPhoneRecordings net f t z")
  from fetchAllPhoneRecordings_walk [OF run]
  show ?thesis using run by (auto simp: MAX_PHONE_PAGES_def)
qed

text \<open>
  C2. When every answer is a page that carries a (non-empty) next-page cursor, the walk
  returns: it issues exactly 20 requests, the cap, and its result holds the records of
  these 20 pages, in order.
\<close>

theorem pagination_stops_at_cap:
  assumes cursors: "\<forall>i. fetchJson (net i) = Inr (pg i) \<and> truthy (next_page_token (pg i))"
  shows "\<exists>res issued.
           fetchAllPhoneRecordings net req_from req_to zps = (Inr res, issued)
         \<and> length issued = 20
         \<and> res_recordings res =
             concat (map (\<lambda>i. map (\<lambda>r. r\<lparr>source := Some Phone\<rparr>)
                                 (case recordings (pg i) of None \<Rightarrow> [] | Some rs \<Rightarrow> rs))
                       [0..<20])"
proof -
  obtain r issued where run: "fetchAllPhoneRecordings net req_from req_to zps = (r, issued)"
    by (cases "fetchAllPhoneRecordings net req_from req_to zps")
  from fetchAllPhoneRecordings_walk [OF run]
  obtain ps where
    len: "length issued = Suc (length ps)" and
    bound: "length ps < MAX_PHONE_PAGES" and
    pages: "\<forall>i<length ps. fetchJson (net i) = Inr (ps ! i) \<and> truthy (next_page_token (ps ! i))" and
    fin: "(case r of
            Inl e \<Rightarrow> fetchJson (net (length ps)) = Inl e
          | Inr res \<Rightarrow> (\<exists>p. fetchJson (net (length ps)) = Inr p
                        \<and> res_recordings res = concat (map page_recs (ps @ [p]))
                        \<and> res_from res = nullish_or (api_from (hd (ps @ [p]))) req_from
                        \<and> res_to res
                            = nullish_or (apiTo (foldl (loop_body req_from req_to) init_vars
                                                  (ps @ [p]))) req_to
                        \<and> (\<not> truthy (next_page_token p) \<or> Suc (length ps) = MAX_PHONE_PAGES)))"
    by blast
  from cursors have last_ok: "fetchJson (net (length ps)) = Inr (pg (length ps))"
    and last_cursor: "truthy (next_page_token (pg (length ps)))"
    by simp_all
  from fin last_ok obtain res where r: "r = Inr res" by (cases r) simp_all
  with fin last_ok last_cursor have
    recs: "res_recordings res = concat (map page_recs (ps @ [pg (length ps)]))" and
    full: "Suc (length ps) = MAX_PHONE_PAGES"
    by auto
  have "ps @ [pg (length ps)] = map pg [0..<20]"
  proof (rule nth_equalityI)
    show "length (ps @ [pg (length ps)]) = length (map pg [0..<20])"
      using full by (simp add: MAX_PHONE_PAGES_def)
  next
    fix i assume "i < length (ps @ [pg (length ps)])"
    then have i: "i < 20" using full by (simp add: MAX_PHONE_PAGES_def)
    show "(ps @ [pg (length ps)]) ! i = map pg [0..<20] ! i"
    proof (cases "i < length ps")
      case True
      with pages cursors have "ps ! i = pg i" by (metis sum.inject(2))
      with True i show ?thesis by (simp add: nth_append)
    next
      case False
      with \<open>i < length (ps @ [pg (length ps)])\<close> have "i = length ps" by simp
      with i show ?thesis by (simp add: nth_append)
    qed
  qed
  with recs have "res_recordings res = concat (map page_recs (map pg [0..<20]))" by simp
  then have "res_recordings res =
      concat (map (\<lambda>i. map (\<lambda>r. r\<lparr>source := Some Phone\<rparr>)
                          (case recordings (pg i) of None \<Rightarrow> [] | Some rs \<Rightarrow> rs)) [0..<20])"
    by (simp add: page_recs_unfold comp_def)
  moreover have "length issued = 20" using len full by (simp add: MAX_PHONE_PAGES_def)
  ultimately show ?thesis using run r by blast
qed

text \<open>The endless upstream: 20 requests, 20 records.\<close>

theorem pagination_stops_at_cap_witness:
  "length (snd (fetchAllPhoneRecordings endless_net ''2025-11-01'' ''2025-11-13'' 300)) = 20
   \<and> map rec_id (res_recordings (projr (fst
        (fetchAllPhoneRecordings endless_net ''2025-11-01'' ''2025-11-13'' 300))))
       = replicate 20 ''r''"
proof -
  have "\<forall>i. fetchJson (endless_net i) = Inr (endless_page i)
           \<and> truthy (next_page_token (endless_page i))"
    by (simp add: endless_net_def endless_page_def example_page_def truthy_def)
  from pagination_stops_at_cap [OF this, of "''2025-11-01''" "''2025-11-13''" 300]
  obtain res issued where
    run: "fetchAllPhoneRecordings endless_net ''2025-11-01'' ''2025-11-13'' 300 = (Inr res, issued)"
    and len: "length issued = 20"
    and recs: "res_recordings res =
             concat (map (\<lambda>i. map (\<lambda>r. r\<lparr>source := Some Phone\<rparr>)
                (case recordings (endless_page i) of None \<Rightarrow> [] | Some rs \<Rightarrow> rs)) [0..<20])"
    by blast
  have "map rec_id (res_recordings res) = replicate 20 ''r''"
    unfolding recs
    by (simp add: endless_page_def example_page_def example_recording_def upt_rec numeral_eq_Suc)
  with run len show ?thesis by simp
qed



text \<open>
  C4. When any request that the walk issues fails (the fetch rejects, the response is not
  \<open>ok\<close>, or its body does not parse), the call ends with that error and nothing else:
  the result is the error alone, without the records of the pages fetched before, and
  the failed request is the last one issued.
\<close>

theorem failure_discards_pages:
  assumes issued: "i < length (snd (fetchAllPhoneRecordings net req_from req_to zps))"
    and failed: "fetchJson (net i) = Inl e"
  shows "fst (fetchAllPhoneRecordings net req_from req_to zps) = Inl e
         \<and> length (snd (fetchAllPhoneRecordings net req_from req_to zps)) = Suc i"
proof -
  obtain r issued where run: "fetchAllPhoneRecordings net req_from req_to zps = (r, issued)"
    by (cases "fetchAllPhoneRecordings net req_from req_to zps")
  from fetchAllPhoneRecordings_walk [OF run]
  obtain ps where
    len: "length issued = Suc (length ps)" and
    pages: "\<forall>i<length ps. fetchJson (net i) = Inr (ps ! i) \<and> truthy (next_page_token (ps ! i))" and
    fin: "(case r of
            Inl e \<Rightarrow> fetchJson (net (length ps)) = Inl e
          | Inr res \<Rightarrow> (\<exists>p. fetchJson (net (length ps)) = Inr p
                        \<and> res_recordings res = concat (map page_recs (ps @ [p]))
                        \<and> res_from res = nullish_or (api_from (hd (ps @ [p]))) req_from
                        \<and> res_to res
                            = nullish_or (apiTo (foldl (loop_body req_from req_to) init_vars
                                                  (ps @ [p]))) req_to
                        \<and> (\<not> truthy (next_page_token p) \<or> Suc (length ps) = MAX_PHONE_PAGES)))"
    by blast
  from issued run len have "i \<le> length ps" by simp
  moreover have "\<not> i < length ps" using pages failed by auto
  ultimately have i: "i = length ps" by simp
  with fin failed have "r = Inl e" by (cases r) auto
  with run len i show ?thesis by simp
qed

text \<open>Page 2 of 3 fails: the call rejects with the HTTP error after two requests.\<close>

theorem failure_discards_pages_witness:
  "fst (fetchAllPhoneRecordings failing_net ''2025-11-01'' ''2025-11-13'' 100)
     = Inl (ErrorObj ''Error'' ''HTTP 500: upstream down'')
   \<and> length (snd (fetchAllPhoneRecordings failing_net ''2025-11-01'' ''2025-11-13'' 100)) = 2"
proof -
  have issued: "1 < length (snd (fetchAllPhoneRecordings failing_net ''2025-11-01'' ''2025-11-13'' 100))"
    by (simp add: failing_run three_pages_requests_def)
  have failed: "fetchJson (failing_net 1) = Inl (ErrorObj ''Error'' ''HTTP 500: upstream down'')"
    by (simp add: failing_net_def decimal.simps digit_char_def)
  from failure_discards_pages [OF issued failed] show ?thesis by simp
qed

lemma drifting_run:
  "fetchAllPhoneRecordings drifting_net ''2025-11-01'' ''2025-11-30'' 100
     = (Inr \<lparr> res_from = ''2025-11-01'', res_to = ''2025-11-13'', res_recordings = [] \<rparr>,
        drifting_requests)"
  by (simp add: run_defs drifting_net_def drifting_first_page_def drifting_second_page_def
      drifting_requests_def)

text \<open>
  The first page echoes 2025-11-01 to 2025-11-07 and the second 2025-11-08 to 2025-11-13
  (the request asks for 2025-11-01 to 2025-11-30). The result has the \<open>from\<close> of the first
  page and the \<open>to\<close> of the second: line 63 reads \<open>apiPage.to ?? apiTo ?? to\<close>, so a later
  page that carries a \<open>to\<close> overwrites the one of the first page.
\<close>

theorem to_follows_later_page:
  "fetchJson (drifting_net 0) = Inr drifting_first_page
   \<and> api_to drifting_first_page = Some ''2025-11-07''
   \<and> fst (fetchAllPhoneRecordings drifting_net ''2025-11-01'' ''2025-11-30'' 100)
       = Inr \<lparr> res_from = ''2025-11-01'', res_to = ''2025-11-13'', res_recordings = [] \<rparr>"
  by (simp add: run_defs drifting_net_def drifting_first_page_def drifting_second_page_def)

text \<open>
  C1, as the code has it. In the result of a successful walk over the pages \<open>ps\<close>, \<open>from\<close>
  is the \<open>from\<close> of the first page, or the request's when that page has none, and no later
  page changes it; \<open>to\<close> is the \<open>to\<close> of the last page that has one, or the request's when
  no page has one.
\<close>

theorem range_of_walk:
  assumes run: "fetchAllPhoneRecordings net req_from req_to zps = (Inr res, issued)"
  shows "\<exists>ps. ps \<noteq> [] \<and> length ps = length issued
           \<and> (\<forall>i<length ps. fetchJson (net i) = Inr (ps ! i))
           \<and> res_from res = (case api_from (hd ps) of None \<Rightarrow> req_from | Some v \<Rightarrow> v)
           \<and> res_to res = (if List.map_filter api_to ps = [] then req_to
                            else last (List.map_filter api_to ps))"
proof -
  from fetchAllPhoneRecordings_walk [OF run]
  obtain ps p where
    len: "length issued = Suc (length ps)" and
    pages: "\<forall>i<length ps. fetchJson (net i) = Inr (ps ! i) \<and> truthy (next_page_token (ps ! i))" and
    last_page: "fetchJson (net (length ps)) = Inr p" and
    fr: "res_from res = nullish_or (api_from (hd (ps @ [p]))) req_from" and
    to: "res_to res = nullish_or (apiTo (foldl (loop_body req_from req_to) init_vars
                                                  (ps @ [p]))) req_to"
    by auto
  have all: "\<forall>i<length (ps @ [p]). fetchJson (net i) = Inr ((ps @ [p]) ! i)"
    using pages last_page by (auto simp: nth_append less_Suc_eq)
  have "apiTo (foldl (loop_body req_from req_to) init_vars (ps @ [p]))
          = Some (if List.map_filter api_to (ps @ [p]) = [] then nullish_or (apiTo init_vars) req_to
                  else last (List.map_filter api_to (ps @ [p])))"
    by (rule foldl_loop_body_apiTo) simp
  with to have to': "res_to res = (if List.map_filter api_to (ps @ [p]) = [] then req_to
                            else last (List.map_filter api_to (ps @ [p])))"
    by (simp add: nullish_or_def)
  have fr': "res_from res = (case api_from (hd (ps @ [p])) of None \<Rightarrow> req_from | Some v \<Rightarrow> v)"
    using fr by (simp add: nullish_or_def)
  show ?thesis
    using all to' fr' len by (intro exI [of _ "ps @ [p]"]) simp
qed

text \<open>On the two pages above.\<close>

theorem range_of_walk_witness:
  "\<exists>ps. ps \<noteq> [] \<and> length ps = length drifting_requests
       \<and> (\<forall>i<length ps. fetchJson (drifting_net i) = Inr (ps ! i))
       \<and> ''2025-11-01'' = (case api_from (hd ps) of None \<Rightarrow> ''2025-11-01'' | Some v \<Rightarrow> v)
       \<and> ''2025-11-13'' = (if List.map_filter api_to ps = [] then ''2025-11-30''
                            else last (List.map_filter api_to ps))"
  using range_of_walk [OF drifting_run] by simp

section \<open>Rounding to doubles\<close>

text \<open>The binary digits of a positive integer bound it from both sides.\<close>

lemma bit_length_nonpos [simp]: "n \<le> 0 \<Longrightarrow> bit_length n = 0"
  by (simp add: bit_length.simps)

lemma bit_length_pos: "0 < n \<Longrightarrow> bit_length n = Suc (bit_length (n div 2))"
  by (subst bit_length.simps) simp

lemma bit_length_bounds:
  "0 < n \<Longrightarrow> 2 ^ (bit_length n - 1) \<le> n \<and> n < 2 ^ bit_length n"
proof (induction n rule: bit_length.induct)
  case (1 n)
  show ?case
  proof (cases "n = 1")
    case True
    then show ?thesis by (simp add: bit_length_pos)
  next
    case False
    with "1.prems" have half: "0 < n div 2" by simp
    with "1.IH" "1.prems"
    have IH: "2 ^ (bit_length (n div 2) - 1) \<le> n div 2" "n div 2 < 2 ^ bit_length (n div 2)"
      by simp_all
    from half have "bit_length (n div 2) \<noteq> 0" by (simp add: bit_length_pos)
    then obtain b where b: "bit_length (n div 2) = Suc b" by (cases "bit_length (n div 2)") auto
    have bl: "bit_length n = Suc (Suc b)" using "1.prems" b by (simp add: bit_length_pos)
    from IH b have "2 ^ b \<le> n div 2" "n div 2 < 2 ^ Suc b" by simp_all
    then have "2 * 2 ^ b \<le> n" "n < 2 * 2 ^ Suc b" by linarith+
    with bl show ?thesis by simp
  qed
qed

lemma bit_length_mult_pow: "0 < n \<Longrightarrow> bit_length (n * 2 ^ s) = bit_length n + s"
proof (induction s)
  case 0
  show ?case by simp
next
  case (Suc s)
  have "0 < n * 2 ^ Suc s" using Suc.prems by simp
  then have "bit_length (n * 2 ^ Suc s) = Suc (bit_length ((n * 2 ^ Suc s) div 2))"
    by (rule bit_length_pos)
  also have "(n * 2 ^ Suc s) div 2 = n * 2 ^ s" by simp
  finally show ?case using Suc by simp
qed

lemma bit_length_le: "n < 2 ^ b \<Longrightarrow> bit_length n \<le> b"
proof (cases "0 < n")
  case False
  then show ?thesis by simp
next
  case True
  assume "n < 2 ^ b"
  with bit_length_bounds [OF True] have "(2::int) ^ (bit_length n - 1) < 2 ^ b" by linarith
  then have "bit_length n - 1 < b" by simp
  then show ?thesis by linarith
qed

lemma round_half_even_of_int [simp]: "round_half_even (of_int z) = z"
  by (simp add: round_half_even_def)

lemma round_half_even_ge: "of_int z \<le> x \<Longrightarrow> z \<le> round_half_even x"
proof -
  assume "of_int z \<le> x"
  then have "z \<le> \<lfloor>x\<rfloor>" by (simp add: le_floor_iff)
  moreover have "\<lfloor>x\<rfloor> \<le> round_half_even x" by (simp add: round_half_even_def Let_def)
  ultimately show ?thesis by linarith
qed

lemma round_half_even_unit: "0 \<le> x \<Longrightarrow> x < 1 \<Longrightarrow> round_half_even x = 0 \<or> round_half_even x = 1"
proof -
  assume "0 \<le> x" "x < 1"
  then have "\<lfloor>x\<rfloor> = 0" by (simp add: floor_eq_iff)
  then show ?thesis by (simp add: round_half_even_def Let_def)
qed

lemma round_double_not_NaN [simp]: "round_double q \<noteq> NaN"
  by (simp add: round_double_def Let_def)

text \<open>A multiple of the step of its own binade is a double.\<close>

lemma round_double_of_multiple:
  assumes mult: "2 ^ (bit_length \<bar>M\<bar> - 53) dvd M" and small: "\<bar>M\<bar> < 2 ^ inf_exp"
  shows "round_double (of_int M / 2 ^ min_exp) = Fin (of_int M / 2 ^ min_exp)"
proof -
  let ?sh = "bit_length \<bar>M\<bar> - 53"
  have k: "(of_int M / 2 ^ min_exp :: rat) * 2 ^ min_exp = of_int M" by simp
  have fl: "\<lfloor>\<bar>of_int M :: rat\<bar>\<rfloor> = \<bar>M\<bar>"
    by (metis floor_of_int of_int_abs)
  from mult obtain c where c: "M = 2 ^ ?sh * c" by (auto simp: dvd_def)
  have quot: "(of_int M :: rat) / 2 ^ ?sh = of_int c"
    by (subst c) simp
  have recomp: "c * 2 ^ ?sh = M" using c by (simp add: mult.commute)
  have abs_recomp: "\<bar>c\<bar> * 2 ^ ?sh = \<bar>M\<bar>"
    using recomp by (metis abs_mult abs_numeral abs_power_minus power_abs abs_of_nonneg zero_le_numeral zero_le_power)
  show ?thesis
    unfolding round_double_def Let_def k fl quot round_half_even_of_int recomp abs_recomp
    using small by simp
qed

text \<open>Up to 53 binary digits times a power of two: such a number is a double.\<close>

lemma round_double_exact:
  assumes m: "\<bar>m\<bar> \<le> 2 ^ 53" and small: "\<bar>m\<bar> * 2 ^ s < 2 ^ inf_exp"
  shows "round_double (of_int (m * 2 ^ s) / 2 ^ min_exp) = Fin (of_int (m * 2 ^ s) / 2 ^ min_exp)"
proof (rule round_double_of_multiple)
  show "\<bar>m * 2 ^ s\<bar> < 2 ^ inf_exp" using small by (simp add: abs_mult)
  show "2 ^ (bit_length \<bar>m * 2 ^ s\<bar> - 53) dvd m * 2 ^ s"
  proof (cases "m = 0")
    case True
    then show ?thesis by simp
  next
    case False
    then have pos: "0 < \<bar>m\<bar>" by simp
    have bl: "bit_length \<bar>m * 2 ^ s\<bar> = bit_length \<bar>m\<bar> + s"
      using bit_length_mult_pow [OF pos, of s] by (simp add: abs_mult)
    show ?thesis
    proof (cases "\<bar>m\<bar> < 2 ^ 53")
      case True
      then have "bit_length \<bar>m\<bar> \<le> 53" by (rule bit_length_le)
      then have "bit_length \<bar>m\<bar> + s - 53 \<le> s" by simp
      then have "(2::int) ^ (bit_length \<bar>m\<bar> + s - 53) dvd 2 ^ s" by (rule le_imp_power_dvd)
      then show ?thesis unfolding bl by (rule dvd_mult)
    next
      case False
      with m have eq: "\<bar>m\<bar> = 2 ^ 53" by simp
      have "bit_length \<bar>m\<bar> = bit_length (1 * 2 ^ 53)" using eq by simp
      also have "\<dots> = bit_length 1 + 53" by (rule bit_length_mult_pow) simp
      also have "\<dots> = 54" by (simp add: bit_length_pos)
      finally have b54: "bit_length \<bar>m\<bar> = 54" .
      have "(2::int) ^ (s + 1) dvd \<bar>m\<bar> * 2 ^ s"
        unfolding eq by (simp add: power_add [symmetric] le_imp_power_dvd)
      then have "(2::int) ^ (s + 1) dvd m * 2 ^ s"
        by (metis abs_mult abs_numeral abs_of_nonneg dvd_abs_iff zero_le_numeral zero_le_power power_abs)
      then show ?thesis unfolding bl b54 by simp
    qed
  qed
qed

text \<open>Whole numbers of magnitude up to \<open>2 ^ 53\<close> are doubles.\<close>

lemma round_double_int:
  assumes "q \<in> \<int>" and "\<bar>q\<bar> \<le> 2 ^ 53"
  shows "round_double q = Fin q"
proof -
  from assms(1) obtain z where z: "q = of_int z" by (auto elim: Ints_cases)
  with assms(2) have "\<bar>z\<bar> \<le> 2 ^ 53"
    by (metis of_int_abs of_int_le_iff of_int_numeral of_int_power)
  moreover from this have "\<bar>z\<bar> * 2 ^ min_exp < 2 ^ inf_exp"
  proof -
    assume "\<bar>z\<bar> \<le> 2 ^ 53"
    then have "\<bar>z\<bar> * 2 ^ min_exp \<le> 2 ^ 53 * 2 ^ min_exp" by (simp add: mult_right_mono)
    also have "\<dots> = (2::int) ^ (53 + min_exp)" by (simp only: power_add)
    also have "\<dots> < 2 ^ inf_exp"
      by (rule power_strict_increasing) (simp_all add: min_exp_def inf_exp_def)
    finally show ?thesis .
  qed
  ultimately have "round_double (of_int (z * 2 ^ min_exp) / 2 ^ min_exp)
                     = Fin (of_int (z * 2 ^ min_exp) / 2 ^ min_exp)"
    by (rule round_double_exact)
  then show ?thesis by (simp add: z)
qed

lemma round_double_0 [simp]: "round_double 0 = Fin 0"
  by (rule round_double_int) simp_all

text \<open>
  From the smallest positive double upwards, rounding gives a positive double or
  \<open>Infinity\<close>; and no positive double lies below it.
\<close>

lemma round_double_pos:
  assumes q: "1 / 2 ^ min_exp \<le> q"
  shows "round_double q = PosInf \<or> (\<exists>r. 1 / 2 ^ min_exp \<le> r \<and> round_double q = Fin r)"
proof -
  let ?k = "q * 2 ^ min_exp"
  let ?sh = "bit_length \<lfloor>\<bar>?k\<bar>\<rfloor> - 53"
  let ?n = "round_half_even (?k / 2 ^ ?sh)"
  have qpos: "0 < q"
  proof -
    have "(0::rat) < 1 / 2 ^ min_exp" by simp
    with q show ?thesis by linarith
  qed
  have k1: "1 \<le> ?k" using q by (simp add: pos_divide_le_eq)
  then have kabs: "\<bar>?k\<bar> = ?k" by simp
  have N1: "1 \<le> \<lfloor>?k\<rfloor>" using k1 by (simp add: le_floor_iff)
  have pow_le: "(2::rat) ^ ?sh \<le> ?k"
  proof -
    have "(2::int) ^ (bit_length \<lfloor>?k\<rfloor> - 1) \<le> \<lfloor>?k\<rfloor>"
      using bit_length_bounds [of "\<lfloor>?k\<rfloor>"] N1 by simp
    moreover have "(2::int) ^ (bit_length \<lfloor>?k\<rfloor> - 53) \<le> 2 ^ (bit_length \<lfloor>?k\<rfloor> - 1)"
      by (rule power_increasing) simp_all
    ultimately have "(2::int) ^ (bit_length \<lfloor>?k\<rfloor> - 53) \<le> \<lfloor>?k\<rfloor>" by linarith
    then have "(of_int (2 ^ (bit_length \<lfloor>?k\<rfloor> - 53)) :: rat) \<le> of_int \<lfloor>?k\<rfloor>"
      by (simp only: of_int_le_iff)
    also have "\<dots> \<le> ?k" by (rule of_int_floor_le)
    finally show ?thesis by (simp add: kabs)
  qed
  have "of_int 1 \<le> ?k / 2 ^ ?sh" using pow_le by (simp add: pos_le_divide_eq)
  then have n1: "1 \<le> ?n" by (rule round_half_even_ge)
  then have prod1: "1 \<le> ?n * 2 ^ ?sh"
  proof -
    have "(1::int) \<le> 2 ^ ?sh" by simp
    with n1 have "1 * 1 \<le> ?n * 2 ^ ?sh" by (intro mult_mono) simp_all
    then show ?thesis by simp
  qed
  show ?thesis
  proof (cases "(2::int) ^ inf_exp \<le> \<bar>?n\<bar> * 2 ^ ?sh")
    case True
    then have "round_double q = PosInf"
      using qpos by (simp add: round_double_def Let_def)
    then show ?thesis by simp
  next
    case False
    then have r: "round_double q = Fin (of_int (?n * 2 ^ ?sh) / 2 ^ min_exp)"
      by (simp add: round_double_def Let_def)
    have "(1::rat) \<le> of_int (?n * 2 ^ ?sh)" using prod1 by (simp only: of_int_1_le_iff)
    then have "1 / 2 ^ min_exp \<le> (of_int (?n * 2 ^ ?sh) :: rat) / 2 ^ min_exp"
      by (simp add: divide_right_mono)
    with r show ?thesis by blast
  qed
qed

lemma double_pos_ge_min:
  assumes same: "round_double q = Fin q" and pos: "0 < q"
  shows "1 / 2 ^ min_exp \<le> q"
proof (rule ccontr)
  assume "\<not> 1 / 2 ^ min_exp \<le> q"
  then have lt: "q < 1 / 2 ^ min_exp" by simp
  let ?k = "q * 2 ^ min_exp"
  have k0: "0 < ?k" using pos by simp
  have k1: "?k < 1" using lt by (simp add: pos_less_divide_eq)
  have fl: "\<lfloor>\<bar>?k\<bar>\<rfloor> = 0" using k0 k1 by (simp add: floor_eq_iff)
  have n01: "round_half_even ?k = 0 \<or> round_half_even ?k = 1"
    using k0 k1 by (intro round_half_even_unit) simp_all
  have big: "(1::int) < 2 ^ inf_exp"
    by (rule one_less_power) (simp_all add: inf_exp_def)
  have "round_double q = Fin (of_int (round_half_even ?k) / 2 ^ min_exp)"
    using n01 big by (auto simp: round_double_def Let_def fl)
  with same have "q = of_int (round_half_even ?k) / 2 ^ min_exp" by simp
  then obtain c :: int where c: "c = round_half_even ?k" and qc: "q = of_int c / 2 ^ min_exp"
    by simp
  from qc have kc: "?k = of_int c" by simp
  from k0 have "0 < (of_int c :: rat)" unfolding kc .
  moreover from k1 have "(of_int c :: rat) < 1" unfolding kc .
  ultimately have "0 < c" "c < 1" by simp_all
  then show False by linarith
qed


lemma round_half_even_bounds: "\<lfloor>x\<rfloor> \<le> round_half_even x \<and> round_half_even x \<le> \<lfloor>x\<rfloor> + 1"
  by (simp add: round_half_even_def Let_def)

lemma round_half_even_abs_le:
  assumes "\<bar>x\<bar> < of_int b"
  shows "\<bar>round_half_even x\<bar> \<le> b"
proof -
  from assms have "x < of_int b" and "- of_int b < x" by (simp_all add: abs_less_iff)
  then have "\<lfloor>x\<rfloor> < b" and "- b \<le> \<lfloor>x\<rfloor>"
    by (simp_all add: floor_less_iff le_floor_iff)
  with round_half_even_bounds [of x] show ?thesis by linarith
qed

text \<open>What rounding returns is a double: rounding it again changes nothing.\<close>

lemma round_double_idem:
  assumes "round_double q = Fin r"
  shows "round_double r = Fin r"
proof -
  let ?k = "q * 2 ^ min_exp"
  let ?bl = "bit_length \<lfloor>\<bar>?k\<bar>\<rfloor>"
  let ?sh = "?bl - 53"
  let ?n = "round_half_even (?k / 2 ^ ?sh)"
  from assms have nov: "\<not> (2::int) ^ inf_exp \<le> \<bar>?n\<bar> * 2 ^ ?sh"
    and r: "r = of_int (?n * 2 ^ ?sh) / 2 ^ min_exp"
    by (auto simp: round_double_def Let_def split: if_splits)
  have fl_lt: "\<lfloor>\<bar>?k\<bar>\<rfloor> < 2 ^ ?bl"
  proof (cases "0 < \<lfloor>\<bar>?k\<bar>\<rfloor>")
    case True
    then show ?thesis using bit_length_bounds by blast
  next
    case False
    then have "\<lfloor>\<bar>?k\<bar>\<rfloor> \<le> 0" by simp
    also have "(0::int) < 2 ^ ?bl" by simp
    finally show ?thesis .
  qed
  then have "\<lfloor>\<bar>?k\<bar>\<rfloor> + 1 \<le> 2 ^ ?bl" by simp
  then have "(of_int (\<lfloor>\<bar>?k\<bar>\<rfloor> + 1) :: rat) \<le> of_int (2 ^ ?bl)" by (simp only: of_int_le_iff)
  moreover have "\<bar>?k\<bar> < of_int (\<lfloor>\<bar>?k\<bar>\<rfloor> + 1)" by linarith
  ultimately have k_lt: "\<bar>?k\<bar> < 2 ^ ?bl" by simp
  have "?bl \<le> ?sh + 53" by simp
  then have "(2::rat) ^ ?bl \<le> 2 ^ (?sh + 53)" by (intro power_increasing) simp_all
  with k_lt have "\<bar>?k\<bar> < 2 ^ ?sh * 2 ^ 53" by (simp only: power_add)
  then have "\<bar>?k\<bar> / 2 ^ ?sh < 2 ^ 53" by (simp add: pos_divide_less_eq mult.commute)
  then have "\<bar>?k / 2 ^ ?sh\<bar> < of_int (2 ^ 53)" by (simp add: abs_divide)
  then have n: "\<bar>?n\<bar> \<le> 2 ^ 53" by (rule round_half_even_abs_le)
  from nov have "\<bar>?n\<bar> * 2 ^ ?sh < 2 ^ inf_exp" by simp
  with n have "round_double (of_int (?n * 2 ^ ?sh) / 2 ^ min_exp)
                 = Fin (of_int (?n * 2 ^ ?sh) / 2 ^ min_exp)"
    by (rule round_double_exact)
  then show ?thesis unfolding r .
qed

lemma jsnum_add_zero_right:
  assumes "acc = NaN \<or> acc = PosInf \<or> acc = NegInf \<or> (\<exists>r. acc = Fin r \<and> round_double r = Fin r)"
  shows "jsnum_add acc (Fin 0) = acc"
  using assms by (cases acc) auto

lemma jsnum_add_is_double:
  assumes "jsnum_add a b = Fin r"
  shows "round_double r = Fin r"
proof -
  from assms obtain p q where "a = Fin p" "b = Fin q"
    by (cases a; cases b) simp_all
  with assms have "round_double (p + q) = Fin r" by simp
  then show ?thesis by (rule round_double_idem)
qed

lemma bit_length_pow2: "bit_length (2 ^ e) = Suc e"
proof -
  have "bit_length (1 * 2 ^ e) = bit_length 1 + e" by (rule bit_length_mult_pow) simp
  moreover have "bit_length 1 = 1" by (simp add: bit_length.simps)
  ultimately show ?thesis by simp
qed

lemma round_double_overflow:
  assumes big: "inf_exp \<le> e + min_exp"
  shows "round_double (2 ^ e) = PosInf"
proof -
  let ?k = "(2::rat) ^ e * 2 ^ min_exp"
  have k: "?k = of_int (2 ^ (e + min_exp))" by (simp add: power_add)
  have fl: "\<lfloor>\<bar>?k\<bar>\<rfloor> = 2 ^ (e + min_exp)" unfolding k by simp
  have "52 \<le> inf_exp" by (simp add: inf_exp_def)
  with big have e52: "52 \<le> e + min_exp" by simp
  have sh: "bit_length \<lfloor>\<bar>?k\<bar>\<rfloor> - 53 = e + min_exp - 52"
    unfolding fl bit_length_pow2 by simp
  have "(2::rat) ^ (e + min_exp) = 2 ^ 52 * 2 ^ (e + min_exp - 52)"
    using e52 by (simp only: power_add [symmetric]) simp
  then have quot: "?k / 2 ^ (e + min_exp - 52) = of_int (2 ^ 52)"
    by (simp add: power_add)
  have n: "round_half_even (?k / 2 ^ (e + min_exp - 52)) = 2 ^ 52"
    unfolding quot by (rule round_half_even_of_int)
  have "(2::int) ^ (e + min_exp) = 2 ^ 52 * 2 ^ (e + min_exp - 52)"
    using e52 by (simp only: power_add [symmetric]) simp
  moreover have "(2::int) ^ inf_exp \<le> 2 ^ (e + min_exp)"
    using big by (rule power_increasing) simp
  ultimately have over: "(2::int) ^ inf_exp \<le> \<bar>2 ^ 52\<bar> * 2 ^ (e + min_exp - 52)"
    by simp
  show ?thesis
    unfolding round_double_def Let_def sh n using over by simp
qed

text \<open>The sum of two finite doubles can be +Infinity.\<close>

lemma jsnum_add_overflows: "jsnum_add (Fin (2 ^ 1023)) (Fin (2 ^ 1023)) = PosInf"
proof -
  have "(2::rat) ^ 1023 + 2 ^ 1023 = 2 ^ Suc 1023" by (simp only: power_Suc mult_2)
  moreover have "round_double (2 ^ Suc 1023) = PosInf"
    by (rule round_double_overflow) (simp add: inf_exp_def min_exp_def)
  ultimately show ?thesis by (simp only: jsnum_add.simps)
qed

lemma round_half_even_tie:
  assumes "even z"
  shows "round_half_even (of_int z + 1 / 2) = z"
proof -
  have fl: "\<lfloor>of_int z + 1 / 2 :: rat\<rfloor> = z" by (rule floor_unique) simp_all
  show ?thesis unfolding round_half_even_def Let_def fl using assms by simp
qed

text \<open>The sum of two whole numbers can differ from their exact sum.\<close>

lemma jsnum_add_rounds: "jsnum_add (Fin (2 ^ 53)) (Fin 1) = Fin (2 ^ 53)"
proof -
  let ?k = "((2::rat) ^ 53 + 1) * 2 ^ min_exp"
  have k: "?k = of_int ((2 ^ 53 + 1) * 2 ^ min_exp)" by simp
  have fl: "\<lfloor>\<bar>?k\<bar>\<rfloor> = (2 ^ 53 + 1) * 2 ^ min_exp"
  proof -
    have "\<bar>?k\<bar> = ?k" by simp
    then show ?thesis unfolding k by (simp only: floor_of_int)
  qed
  have "bit_length ((2 ^ 53 + 1) * 2 ^ min_exp) = bit_length (2 ^ 53 + 1) + min_exp"
    by (rule bit_length_mult_pow) simp
  moreover have "bit_length (2 ^ 53 + 1) = 54"
  proof -
    have "54 \<le> bit_length (2 ^ 53 + 1)"
    proof (rule ccontr)
      assume "\<not> 54 \<le> bit_length (2 ^ 53 + 1)"
      then have "bit_length (2 ^ 53 + 1) \<le> 53" by simp
      then have "(2::int) ^ bit_length (2 ^ 53 + 1) \<le> 2 ^ 53" by (rule power_increasing) simp
      moreover have "(2 ^ 53 + 1 :: int) < 2 ^ bit_length (2 ^ 53 + 1)"
        using bit_length_bounds [of "2 ^ 53 + 1"] by simp
      ultimately show False by simp
    qed
    moreover have "bit_length (2 ^ 53 + 1) \<le> 54" by (rule bit_length_le) simp
    ultimately show ?thesis by simp
  qed
  ultimately have sh: "bit_length \<lfloor>\<bar>?k\<bar>\<rfloor> - 53 = Suc min_exp"
    unfolding fl by simp
  have quot: "?k / 2 ^ Suc min_exp = of_int (2 ^ 52) + 1 / 2" by (simp add: field_simps)
  have n: "round_half_even (?k / 2 ^ Suc min_exp) = 2 ^ 52"
    unfolding quot by (rule round_half_even_tie) simp
  have small: "\<not> (2::int) ^ inf_exp \<le> \<bar>2 ^ 52\<bar> * 2 ^ Suc min_exp"
  proof -
    have "\<bar>2 ^ 52\<bar> * 2 ^ Suc min_exp = (2::int) ^ (52 + Suc min_exp)"
      by (simp only: power_add) simp
    moreover have "(2::int) ^ (52 + Suc min_exp) < 2 ^ inf_exp"
      by (rule power_strict_increasing) (simp_all add: inf_exp_def min_exp_def)
    ultimately show ?thesis by simp
  qed
  have "round_double (2 ^ 53 + 1) = Fin (of_int (2 ^ 52 * 2 ^ Suc min_exp) / 2 ^ min_exp)"
    unfolding round_double_def Let_def sh n using small by (simp only: if_False)
  also have "of_int (2 ^ 52 * 2 ^ Suc min_exp) / (2::rat) ^ min_exp = 2 ^ 53" by simp
  finally show ?thesis by (simp only: jsnum_add.simps)
qed

section \<open>Claims about the normalizer\<close>

subsection \<open>Effective start time\<close>

lemma toISOString_nonempty: "toISOString t \<noteq> []"
  by (simp add: toISOString_def Let_def split: prod.splits)

lemma set_starts_of:
  "set (starts_of parse fs)
     = {d. \<exists>f\<in>set fs. \<exists>s. f_recording_start f = Some s \<and> s \<noteq> [] \<and> parse s = Some d}"
  by (induction fs) (auto split: option.splits)

lemma sort_head_is_Min:
  assumes "sort xs = d # ds"
  shows "d = Min (set xs)"
proof -
  have "sorted (d # ds)" using assms by (metis sorted_sort)
  then have "\<forall>x\<in>set (d # ds). d \<le> x" by auto
  moreover have "set (d # ds) = set xs" using assms by (metis set_sort)
  ultimately have "\<forall>x\<in>set xs. d \<le> x" and "d \<in> set xs" by auto
  then show ?thesis by (intro Min_eqI [symmetric]) auto
qed

lemma firstStartIso_eq:
  "firstStartIso parse fs
     = (if starts_of parse fs = [] then None
        else Some (toISOString (Min (set (starts_of parse fs)))))"
proof (cases "sort (starts_of parse fs)")
  case Nil
  then have "starts_of parse fs = []" by (metis length_sort length_0_conv)
  then show ?thesis by (simp add: firstStartIso_def)
next
  case (Cons d ds)
  then have "starts_of parse fs \<noteq> []" by auto
  with Cons sort_head_is_Min [OF Cons] show ?thesis by (simp add: firstStartIso_def)
qed

lemma files_of_example_meeting [simp]: "files_of (example_meeting fs) = fs"
  by (simp add: files_of_def example_meeting_def)

lemma starts_of_start_files:
  "starts_of example_parse start_files = [1762336800000, 1762333200000]"
  by (simp add: start_files_def example_file_def example_parse_def)

lemma starts_of_sized_files: "starts_of example_parse sized_files = []"
  by (simp add: sized_files_def example_file_def)

lemma toISOString_example: "toISOString 1762333200000 = ''2025-11-05T09:00:00.000Z''"
  by code_simp

text \<open>
  C5. Let \<open>files\<close> be the \<open>recording_files\<close> of a session (none when the field is no
  array), and take the start timestamps of these files that are present, not empty and
  parse to a valid date. When there is none, the \<open>date_time\<close> of the normalized session is
  the session's own \<open>start_time\<close>. Otherwise it is the earliest of them, written by
  \<open>toISOString\<close>. For files starting at 10:00, at 09:00 and at an invalid timestamp, that
  is 09:00, printed as \<open>2025-11-05T09:00:00.000Z\<close>.
\<close>

theorem date_time_is_earliest_start:
  assumes files: "files = (case m_recording_files m of None \<Rightarrow> [] | Some fs \<Rightarrow> fs)"
  shows "date_time (normalizeMeeting js m)
     = (if {d. \<exists>f\<in>set files. \<exists>s. f_recording_start f = Some s \<and> s \<noteq> []
                                \<and> Date_parse js s = Some d} = {}
        then m_start_time m
        else Some (toISOString
               (Min {d. \<exists>f\<in>set files. \<exists>s. f_recording_start f = Some s \<and> s \<noteq> []
                                        \<and> Date_parse js s = Some d})))
   \<and> date_time (normalizeMeeting example_engine (example_meeting start_files))
       = Some ''2025-11-05T09:00:00.000Z''"
proof
  let ?V = "{d. \<exists>f\<in>set files. \<exists>s. f_recording_start f = Some s \<and> s \<noteq> []
                                \<and> Date_parse js s = Some d}"
  have fo: "files_of m = files" by (simp add: files_of_def files)
  have V: "set (starts_of (Date_parse js) (files_of m)) = ?V"
    unfolding fo by (rule set_starts_of)
  have dt: "date_time (normalizeMeeting js m)
              = js_or (firstStartIso (Date_parse js) (files_of m)) (m_start_time m)"
    by (simp add: normalizeMeeting_def)
  show "date_time (normalizeMeeting js m)
     = (if ?V = {} then m_start_time m else Some (toISOString (Min ?V)))"
  proof (cases "starts_of (Date_parse js) (files_of m) = []")
    case True
    then have empty: "?V = {}" using V by simp
    from True dt have "date_time (normalizeMeeting js m) = m_start_time m"
      by (simp add: firstStartIso_eq js_or_def truthy_def)
    then show ?thesis by (subst if_P [OF empty])
  next
    case False
    then have ne: "?V \<noteq> {}" using V by (metis set_empty)
    from False dt have "date_time (normalizeMeeting js m)
        = Some (toISOString (Min (set (starts_of (Date_parse js) (files_of m)))))"
      by (simp add: firstStartIso_eq js_or_def truthy_def toISOString_nonempty)
    then have "date_time (normalizeMeeting js m) = Some (toISOString (Min ?V))"
      by (simp only: V)
    then show ?thesis by (subst if_not_P [OF ne])
  qed
next
  show "date_time (normalizeMeeting example_engine (example_meeting start_files))
       = Some ''2025-11-05T09:00:00.000Z''"
    by (simp add: normalizeMeeting_def example_engine_def firstStartIso_def
        starts_of_start_files toISOString_example js_or_def truthy_def)
qed

text \<open>
  The theorem on two sessions: the three files above, and four files without any start,
  where \<open>date_time\<close> is the \<open>start_time\<close> of the session.
\<close>

theorem date_time_is_earliest_start_witness:
  "date_time (normalizeMeeting example_engine (example_meeting start_files))
     = Some (toISOString (Min {1762336800000, 1762333200000}))
   \<and> toISOString (Min {1762336800000, 1762333200000}) = ''2025-11-05T09:00:00.000Z''
   \<and> date_time (normalizeMeeting example_engine (example_meeting sized_files))
     = Some ''2025-11-05T08:55:00Z''"
proof -
  have f1: "start_files
      = (case m_recording_files (example_meeting start_files) of None \<Rightarrow> [] | Some fs \<Rightarrow> fs)"
    by (simp add: example_meeting_def)
  have f2: "sized_files
      = (case m_recording_files (example_meeting sized_files) of None \<Rightarrow> [] | Some fs \<Rightarrow> fs)"
    by (simp add: example_meeting_def)
  have V1: "{d. \<exists>f\<in>set start_files. \<exists>s. f_recording_start f = Some s \<and> s \<noteq> []
                  \<and> Date_parse example_engine s = Some d}
              = {1762336800000, 1762333200000}"
    using set_starts_of [of example_parse start_files, symmetric]
    by (simp add: starts_of_start_files example_engine_def)
  have V2: "{d. \<exists>f\<in>set sized_files. \<exists>s. f_recording_start f = Some s \<and> s \<noteq> []
                  \<and> Date_parse example_engine s = Some d} = {}"
    using set_starts_of [of example_parse sized_files, symmetric]
    by (simp add: starts_of_sized_files example_engine_def)
  from date_time_is_earliest_start [OF f1, of example_engine, THEN conjunct1]
  have d1: "date_time (normalizeMeeting example_engine (example_meeting start_files))
     = Some (toISOString (Min {1762336800000, 1762333200000}))"
    unfolding V1 by simp
  from date_time_is_earliest_start [OF f2, of example_engine, THEN conjunct1]
  have d2: "date_time (normalizeMeeting example_engine (example_meeting sized_files))
     = m_start_time (example_meeting sized_files)"
    unfolding V2 by simp
  have "Min {1762336800000, 1762333200000} = (1762333200000 :: int)" by simp
  then have iso: "toISOString (Min {1762336800000, 1762333200000}) = ''2025-11-05T09:00:00.000Z''"
    by (simp only: toISOString_example)
  from d1 d2 iso show ?thesis by (simp add: example_meeting_def)
qed

subsection \<open>The total size of a session\<close>

text \<open>
  What one file adds to the sum: its size when that is a number other than NaN, else 0.
\<close>

lemma sz_of_cases:
  "sz_of f = (case f_file_size f of
                JNum (Fin n) \<Rightarrow> Fin n | JNum PosInf \<Rightarrow> PosInf | JNum NegInf \<Rightarrow> NegInf
              | _ \<Rightarrow> Fin 0)"
  by (simp add: sz_of_def isNaN_def split: js_value.splits jsnum.splits)

lemma sz_of_not_NaN [simp]: "sz_of f \<noteq> NaN"
  by (simp add: sz_of_cases split: js_value.splits jsnum.splits)



text \<open>A file whose size is no number, or NaN, leaves the running sum as it is.\<close>

lemma foldl_sizes_drop:
  assumes "acc = NaN \<or> acc = PosInf \<or> acc = NegInf
           \<or> (\<exists>r. acc = Fin r \<and> round_double r = Fin r)"
  shows "foldl (\<lambda>acc f. jsnum_add acc (sz_of f)) acc fs
         = foldl (\<lambda>acc f. jsnum_add acc (sz_of f)) acc
             (filter (\<lambda>f. case f_file_size f of JNum n \<Rightarrow> n \<noteq> NaN | _ \<Rightarrow> False) fs)"
  using assms
proof (induction fs arbitrary: acc)
  case Nil
  show ?case by simp
next
  case (Cons f fs)
  let ?keep = "\<lambda>f. case f_file_size f of JNum n \<Rightarrow> n \<noteq> NaN | _ \<Rightarrow> False"
  have next_ok: "jsnum_add acc (sz_of f) = NaN \<or> jsnum_add acc (sz_of f) = PosInf
      \<or> jsnum_add acc (sz_of f) = NegInf
      \<or> (\<exists>r. jsnum_add acc (sz_of f) = Fin r \<and> round_double r = Fin r)"
    by (cases "jsnum_add acc (sz_of f)") (auto dest: jsnum_add_is_double)
  show ?case
  proof (cases "?keep f")
    case True
    with Cons.IH [OF next_ok] show ?thesis by simp
  next
    case False
    then have "sz_of f = Fin 0"
      by (simp add: sz_of_def isNaN_def split: js_value.splits)
    with Cons.prems have "jsnum_add acc (sz_of f) = acc"
      by (simp add: jsnum_add_zero_right)
    with False Cons.IH [OF Cons.prems] show ?thesis by simp
  qed
qed







subsection \<open>The file size of the record\<close>

lemma file_size_normalize:
  "file_size (normalizeMeeting js m)
     = (if truthy_num (totalSizeBytes (files_of m)) then Some (totalSizeBytes (files_of m))
        else None)"
  by (simp add: normalizeMeeting_def)

lemma min_double_pos: "1 / 2 ^ min_exp \<le> r \<Longrightarrow> 0 < (r::rat)"
proof -
  assume "1 / 2 ^ min_exp \<le> r"
  moreover have "(0::rat) < 1 / 2 ^ min_exp" by simp
  ultimately show "0 < r" by (rule order.strict_trans2 [rotated])
qed

text \<open>What a file adds when its size is a number of the language that is not negative.\<close>

lemma sz_of_nonneg:
  assumes "\<forall>n. f_file_size f = JNum n \<longrightarrow> js_number n \<and> \<not> is_negative n"
  shows "sz_of f = Fin 0 \<or> sz_of f = PosInf \<or> (\<exists>q. sz_of f = Fin q \<and> 1 / 2 ^ min_exp \<le> q)"
proof (cases "f_file_size f")
  case (JNum n)
  with assms have n: "js_number n" "\<not> is_negative n" by simp_all
  show ?thesis
  proof (cases n)
    case (Fin q)
    with n have dbl: "round_double q = Fin q" and "0 \<le> q"
      by (simp_all add: js_number_def is_double_def is_negative_def)
    show ?thesis
    proof (cases "q = 0")
      case True
      with JNum Fin show ?thesis by (simp add: sz_of_cases)
    next
      case False
      with \<open>0 \<le> q\<close> have "0 < q" by simp
      with dbl have "1 / 2 ^ min_exp \<le> q" by (rule double_pos_ge_min)
      with JNum Fin show ?thesis by (simp add: sz_of_cases)
    qed
  next
    case PosInf
    with JNum show ?thesis by (simp add: sz_of_cases)
  next
    case NegInf
    with n show ?thesis by (simp add: is_negative_def)
  next
    case NaN
    with JNum show ?thesis by (simp add: sz_of_cases)
  qed
qed (simp_all add: sz_of_cases)

lemma sz_of_positive:
  assumes "\<forall>n. f_file_size f = JNum n \<longrightarrow> js_number n \<and> \<not> is_negative n"
  shows "sz_of f \<noteq> Fin 0 \<longleftrightarrow> (\<exists>n. f_file_size f = JNum n \<and> is_positive n)"
  using assms
  by (cases "f_file_size f")
     (auto simp: sz_of_cases is_positive_def is_negative_def split: jsnum.splits)

text \<open>
  Sizes that are not negative: the running sum stays 0 as long as every file adds 0, and
  is positive (at least the least positive double, or +Infinity) from the first file
  that adds something.
\<close>

lemma foldl_sizes_sign:
  assumes ok: "\<forall>f\<in>set fs. \<forall>n. f_file_size f = JNum n \<longrightarrow> js_number n \<and> \<not> is_negative n"
    and acc: "acc = Fin 0 \<or> acc = PosInf \<or> (\<exists>r. acc = Fin r \<and> 1 / 2 ^ min_exp \<le> r)"
  shows "(foldl (\<lambda>acc f. jsnum_add acc (sz_of f)) acc fs = Fin 0
            \<and> acc = Fin 0 \<and> (\<forall>f\<in>set fs. sz_of f = Fin 0))
         \<or> ((foldl (\<lambda>acc f. jsnum_add acc (sz_of f)) acc fs = PosInf
              \<or> (\<exists>r. foldl (\<lambda>acc f. jsnum_add acc (sz_of f)) acc fs = Fin r
                      \<and> 1 / 2 ^ min_exp \<le> r))
            \<and> (acc \<noteq> Fin 0 \<or> (\<exists>f\<in>set fs. sz_of f \<noteq> Fin 0)))"
  using assms
proof (induction fs arbitrary: acc)
  case Nil
  then show ?case by (auto dest: min_double_pos)
next
  case (Cons f fs)
  from Cons.prems(1)
  have f_ok: "\<forall>n. f_file_size f = JNum n \<longrightarrow> js_number n \<and> \<not> is_negative n"
    and fs_ok: "\<forall>f\<in>set fs. \<forall>n. f_file_size f = JNum n \<longrightarrow> js_number n \<and> \<not> is_negative n"
    by simp_all
  note s = sz_of_nonneg [OF f_ok]
  let ?a = "jsnum_add acc (sz_of f)"
  have step: "(?a = Fin 0 \<and> acc = Fin 0 \<and> sz_of f = Fin 0)
      \<or> ((?a = PosInf \<or> (\<exists>r. ?a = Fin r \<and> 1 / 2 ^ min_exp \<le> r))
          \<and> (acc \<noteq> Fin 0 \<or> sz_of f \<noteq> Fin 0))"
  proof -
    consider (zero) "acc = Fin 0" "sz_of f = Fin 0"
      | (inf) "acc = PosInf \<or> sz_of f = PosInf"
      | (fin) p q where "acc = Fin p" "sz_of f = Fin q" "0 \<le> p" "0 \<le> q" "1 / 2 ^ min_exp \<le> p + q"
    proof -
      from Cons.prems(2) s show ?thesis
      proof (elim disjE exE conjE)
        assume "acc = Fin 0" "sz_of f = Fin 0"
        then show ?thesis by (rule that(1))
      next
        fix q assume "acc = Fin 0" "sz_of f = Fin q" "1 / 2 ^ min_exp \<le> q"
        moreover from this(3) have "0 < q" by (rule min_double_pos)
        ultimately show ?thesis by (intro that(3) [of 0 q]) simp_all
      next
        fix r assume "acc = Fin r" "1 / 2 ^ min_exp \<le> r" "sz_of f = Fin 0"
        moreover from this(2) have "0 < r" by (rule min_double_pos)
        ultimately show ?thesis by (intro that(3) [of r 0]) simp_all
      next
        fix r q assume "acc = Fin r" "1 / 2 ^ min_exp \<le> r" "sz_of f = Fin q" "1 / 2 ^ min_exp \<le> q"
        moreover from this(2) have "0 < r" by (rule min_double_pos)
        moreover from \<open>1 / 2 ^ min_exp \<le> q\<close> have "0 < q" by (rule min_double_pos)
        ultimately show ?thesis by (intro that(3) [of r q]) simp_all
      qed (auto intro: that(2))
    qed
    then show ?thesis
    proof cases
      case zero
      then show ?thesis by simp
    next
      case inf
      with Cons.prems(2) s have "?a = PosInf" by auto
      moreover from inf have "acc \<noteq> Fin 0 \<or> sz_of f \<noteq> Fin 0" by auto
      ultimately show ?thesis by simp
    next
      case fin
      from round_double_pos [OF fin(5)]
      have "?a = PosInf \<or> (\<exists>r. ?a = Fin r \<and> 1 / 2 ^ min_exp \<le> r)"
        using fin(1,2) by auto
      moreover have "acc \<noteq> Fin 0 \<or> sz_of f \<noteq> Fin 0"
      proof (rule ccontr)
        assume "\<not> (acc \<noteq> Fin 0 \<or> sz_of f \<noteq> Fin 0)"
        with fin(1,2) have "p + q = 0" by simp
        with min_double_pos [OF fin(5)] show False by simp
      qed
      ultimately show ?thesis by simp
    qed
  qed
  have acc': "?a = Fin 0 \<or> ?a = PosInf \<or> (\<exists>r. ?a = Fin r \<and> 1 / 2 ^ min_exp \<le> r)"
    using step by blast
  note IH = Cons.IH [OF fs_ok acc']
  have not0: "?a \<noteq> Fin 0" if "acc \<noteq> Fin 0 \<or> sz_of f \<noteq> Fin 0"
    using step that by (auto dest: min_double_pos)
  from IH consider
    (zero) "foldl (\<lambda>acc f. jsnum_add acc (sz_of f)) ?a fs = Fin 0" "?a = Fin 0"
      "\<forall>f\<in>set fs. sz_of f = Fin 0"
    | (pos) "foldl (\<lambda>acc f. jsnum_add acc (sz_of f)) ?a fs = PosInf
              \<or> (\<exists>r. foldl (\<lambda>acc f. jsnum_add acc (sz_of f)) ?a fs = Fin r \<and> 1 / 2 ^ min_exp \<le> r)"
      "?a \<noteq> Fin 0 \<or> (\<exists>f\<in>set fs. sz_of f \<noteq> Fin 0)"
    by blast
  then show ?case
  proof cases
    case zero
    moreover from zero(2) not0 have "acc = Fin 0" "sz_of f = Fin 0" by blast+
    ultimately show ?thesis by simp
  next
    case pos
    note t = pos(1)
    from pos(2) step have "acc \<noteq> Fin 0 \<or> (\<exists>f\<in>set (f # fs). sz_of f \<noteq> Fin 0)"
      by auto
    with t show ?thesis by simp
  qed
qed

text \<open>
  C10, as the code has it, on doubles. When the total is 0 the record has no
  \<open>file_size\<close>; that is so when the session has no file or when no file has a size
  that is a number other than NaN. The same holds when the total is NaN, and in every
  other case \<open>file_size\<close> is the total. When every numeric size is a double that is
  not negative, \<open>file_size\<close> is a positive number exactly when some file has a positive
  numeric size: a sum of doubles that are not negative never rounds down to 0.
\<close>

theorem file_size_absent_or_total:
  assumes files: "files = (case m_recording_files m of None \<Rightarrow> [] | Some fs \<Rightarrow> fs)"
  shows "(totalSizeBytes files = Fin 0 \<longrightarrow> file_size (normalizeMeeting js m) = None)
   \<and> ((\<forall>f\<in>set files. case f_file_size f of JNum n \<Rightarrow> n = NaN | _ \<Rightarrow> True)
        \<longrightarrow> file_size (normalizeMeeting js m) = None)
   \<and> file_size (normalizeMeeting js m)
       = (if totalSizeBytes files = Fin 0 \<or> totalSizeBytes files = NaN then None
          else Some (totalSizeBytes files))
   \<and> ((\<forall>f\<in>set files. \<forall>n. f_file_size f = JNum n \<longrightarrow> js_number n \<and> \<not> is_negative n) \<longrightarrow>
        ((\<exists>n. file_size (normalizeMeeting js m) = Some n \<and> is_positive n)
           \<longleftrightarrow> (\<exists>f\<in>set files. \<exists>n. f_file_size f = JNum n \<and> is_positive n)))"
proof -
  have fo: "files_of m = files" by (simp add: files_of_def files)
  have size: "file_size (normalizeMeeting js m)
       = (if totalSizeBytes files = Fin 0 \<or> totalSizeBytes files = NaN then None
          else Some (totalSizeBytes files))"
    by (simp add: file_size_normalize truthy_num_def fo)
  have invalid: "file_size (normalizeMeeting js m) = None"
    if "\<forall>f\<in>set files. case f_file_size f of JNum n \<Rightarrow> n = NaN | _ \<Rightarrow> True"
  proof -
    from that
    have "filter (\<lambda>f. case f_file_size f of JNum n \<Rightarrow> n \<noteq> NaN | _ \<Rightarrow> False) files = []"
      by (auto simp: filter_empty_conv split: js_value.splits)
    moreover have "foldl (\<lambda>acc f. jsnum_add acc (sz_of f)) (Fin 0) files
         = foldl (\<lambda>acc f. jsnum_add acc (sz_of f)) (Fin 0)
             (filter (\<lambda>f. case f_file_size f of JNum n \<Rightarrow> n \<noteq> NaN | _ \<Rightarrow> False) files)"
      by (rule foldl_sizes_drop) simp
    ultimately have "totalSizeBytes files = Fin 0" by (simp add: totalSizeBytes_def)
    with size show ?thesis by simp
  qed
  have positive: "(\<exists>n. file_size (normalizeMeeting js m) = Some n \<and> is_positive n)
           \<longleftrightarrow> (\<exists>f\<in>set files. \<exists>n. f_file_size f = JNum n \<and> is_positive n)"
    if ok: "\<forall>f\<in>set files. \<forall>n. f_file_size f = JNum n \<longrightarrow> js_number n \<and> \<not> is_negative n"
  proof -
    have some: "(\<exists>f\<in>set files. sz_of f \<noteq> Fin 0)
        \<longleftrightarrow> (\<exists>f\<in>set files. \<exists>n. f_file_size f = JNum n \<and> is_positive n)"
      using ok sz_of_positive by blast
    from foldl_sizes_sign [OF ok, of "Fin 0"]
    have "(totalSizeBytes files = Fin 0 \<and> (\<forall>f\<in>set files. sz_of f = Fin 0))
         \<or> ((totalSizeBytes files = PosInf
              \<or> (\<exists>r. totalSizeBytes files = Fin r \<and> 1 / 2 ^ min_exp \<le> r))
            \<and> (\<exists>f\<in>set files. sz_of f \<noteq> Fin 0))"
      by (simp add: totalSizeBytes_def)
    then consider
      (zero) "totalSizeBytes files = Fin 0" "\<forall>f\<in>set files. sz_of f = Fin 0"
      | (pos) "totalSizeBytes files = PosInf
              \<or> (\<exists>r. totalSizeBytes files = Fin r \<and> 1 / 2 ^ min_exp \<le> r)"
        "\<exists>f\<in>set files. sz_of f \<noteq> Fin 0"
      by blast
    then show ?thesis
    proof cases
      case zero
      with size some show ?thesis by auto
    next
      case pos
      note t = pos(1) and ex = pos(2)
      from t have "totalSizeBytes files \<noteq> Fin 0" "totalSizeBytes files \<noteq> NaN"
        "is_positive (totalSizeBytes files)"
        by (auto simp: is_positive_def dest: min_double_pos)
      with size have "\<exists>n. file_size (normalizeMeeting js m) = Some n \<and> is_positive n"
        by simp
      with ex some show ?thesis by simp
    qed
  qed
  from size invalid positive show ?thesis by simp
qed

text \<open>
  Sizes 100, NaN, "x", 50: \<open>file_size\<close> is 150. Files without sizes: no \<open>file_size\<close>.
\<close>

lemma total_sized_files: "totalSizeBytes sized_files = Fin 150"
  by (simp add: sized_files_def example_file_def totalSizeBytes_def sz_of_def isNaN_def
      round_double_int)

lemma total_cancelling_files: "totalSizeBytes cancelling_files = Fin 0"
  by (simp add: cancelling_files_def example_file_def totalSizeBytes_def sz_of_def isNaN_def
      round_double_int)

theorem file_size_absent_or_total_witness:
  "file_size (normalizeMeeting example_engine (example_meeting sized_files)) = Some (Fin 150)
   \<and> file_size (normalizeMeeting example_engine (example_meeting start_files)) = None
   \<and> (\<exists>f\<in>set sized_files. \<exists>n. f_file_size f = JNum n \<and> is_positive n)"
proof -
  have f1: "sized_files = (case m_recording_files (example_meeting sized_files) of
                             None \<Rightarrow> [] | Some fs \<Rightarrow> fs)"
    by (simp add: example_meeting_def)
  have f2: "start_files = (case m_recording_files (example_meeting start_files) of
                             None \<Rightarrow> [] | Some fs \<Rightarrow> fs)"
    by (simp add: example_meeting_def)
  note sized = file_size_absent_or_total [OF f1, of example_engine]
  note starts = file_size_absent_or_total [OF f2, of example_engine]
  have nonneg: "\<forall>f\<in>set sized_files.
                  \<forall>n. f_file_size f = JNum n \<longrightarrow> js_number n \<and> \<not> is_negative n"
    by (simp add: sized_files_def example_file_def is_negative_def js_number_def is_double_def
        round_double_int)
  have invalid: "\<forall>f\<in>set start_files. case f_file_size f of JNum n \<Rightarrow> n = NaN | _ \<Rightarrow> True"
    by (simp add: start_files_def example_file_def)
  from starts [THEN conjunct2, THEN conjunct1] invalid
  have absent: "file_size (normalizeMeeting example_engine (example_meeting start_files)) = None"
    by (rule mp)
  from sized [THEN conjunct2, THEN conjunct2, THEN conjunct1]
  have present: "file_size (normalizeMeeting example_engine (example_meeting sized_files))
                   = Some (Fin 150)"
    by (simp add: total_sized_files)
  from sized [THEN conjunct2, THEN conjunct2, THEN conjunct2] nonneg
  have "(\<exists>n. file_size (normalizeMeeting example_engine (example_meeting sized_files)) = Some n
              \<and> is_positive n)
           \<longleftrightarrow> (\<exists>f\<in>set sized_files. \<exists>n. f_file_size f = JNum n \<and> is_positive n)"
    by (rule mp)
  with present have "\<exists>f\<in>set sized_files. \<exists>n. f_file_size f = JNum n \<and> is_positive n"
    by (simp add: is_positive_def)
  with absent present show ?thesis by simp
qed

text \<open>
  C10 as the specification states it: \<open>file_size\<close> is positive exactly when some file
  has a positive numeric size. Two files of sizes 5 and -5: one file has a positive
  numeric size, the total is 0 and the record has no \<open>file_size\<close>.
\<close>

theorem positive_size_without_file_size:
  "f_file_size (cancelling_files ! 0) = JNum (Fin 5)
   \<and> is_positive (Fin 5)
   \<and> file_size (normalizeMeeting example_engine (example_meeting cancelling_files)) = None"
proof -
  have "f_file_size (cancelling_files ! 0) = JNum (Fin 5)"
    by (simp add: cancelling_files_def example_file_def)
  moreover have "is_positive (Fin 5)" by (simp add: is_positive_def)
  moreover have "file_size (normalizeMeeting example_engine (example_meeting cancelling_files))
                   = None"
    by (simp add: file_size_normalize total_cancelling_files truthy_num_def)
  ultimately show ?thesis by simp
qed

subsection \<open>Host email and host name\<close>

lemma spec_fallback_chain_nonempty: "d \<noteq> [] \<Longrightarrow> spec_fallback_chain cs d \<noteq> []"
  by (induction cs d rule: spec_fallback_chain.induct) simp_all

lemma hostEmail_chain:
  "hostEmail m = spec_fallback_chain [m_hostEmail m, m_host_email m, m_owner_email m] []"
  by (cases "m_hostEmail m"; cases "m_host_email m"; cases "m_owner_email m")
     (auto simp: hostEmail_def js_or_str_def js_or_def truthy_def)

lemma hostName_chain:
  "hostName m
     = spec_fallback_chain [m_hostName m, m_owner_name m, Some (hostEmail m), m_topic m] ''Unknown''"
  by (cases "m_hostName m"; cases "m_owner_name m"; cases "m_topic m")
     (auto simp: hostName_def js_or_str_def js_or_def truthy_def)

text \<open>
  C7. The host email of a normalized session is the first of \<open>hostEmail\<close>, \<open>host_email\<close>
  and \<open>owner_email\<close> that is present and not empty, and the empty string when there is
  none. The host name is the first of \<open>hostName\<close>, \<open>owner_name\<close>, that host email and
  \<open>topic\<close> that is present and not empty, and \<open>"Unknown"\<close> when there is none. So the host
  name is always there and never the empty string.
\<close>

theorem host_name_chain:
  "host_email (normalizeMeeting js m)
     = Some (spec_fallback_chain [m_hostEmail m, m_host_email m, m_owner_email m] [])
   \<and> host_name (normalizeMeeting js m)
     = Some (spec_fallback_chain
               [m_hostName m, m_owner_name m,
                Some (spec_fallback_chain [m_hostEmail m, m_host_email m, m_owner_email m] []),
                m_topic m]
               ''Unknown'')
   \<and> host_name (normalizeMeeting js m) \<noteq> None
   \<and> host_name (normalizeMeeting js m) \<noteq> Some []"
proof -
  have "hostName m \<noteq> []"
    unfolding hostName_chain by (rule spec_fallback_chain_nonempty) simp
  then show ?thesis
    using hostName_chain [of m] hostEmail_chain [of m] by (simp add: normalizeMeeting_def)
qed

text \<open>With \<open>owner_email = "a@x.com"\<close> alone, host email and host name are both \<open>"a@x.com"\<close>.\<close>

theorem host_name_chain_witness:
  "host_email (normalizeMeeting example_engine owner_email_only) = Some ''a@x.com''
   \<and> host_name (normalizeMeeting example_engine owner_email_only) = Some ''a@x.com''"
  using host_name_chain [of example_engine owner_email_only]
  by (simp add: owner_email_only_def)

section \<open>The source tag and the optional fields\<close>

text \<open>
  A phone page whose record carries \<open>topic\<close>, \<open>host_email\<close> and \<open>files_types\<close>: the paginator
  copies them (\<open>{ ...r, source: "phone" }\<close>), so the record tagged \<open>phone\<close> has all three.
\<close>

lemma topic_run:
  "fst (fetchAllPhoneRecordings topic_net ''2025-11-01'' ''2025-11-13'' 100)
     = Inr \<lparr> res_from = ''2025-11-01'', res_to = ''2025-11-13'',
             res_recordings =
               [(example_recording ''p1'')
                  \<lparr> source := Some Phone, topic := Some ''Weekly sync'',
                    host_email := Some ''host@example.com'', files_types := Some [''MP4''] \<rparr>] \<rparr>"
  by (simp add: run_defs topic_net_def topic_page_def)

theorem phone_record_with_topic:
  "map source (res_recordings (projr (fst
       (fetchAllPhoneRecordings topic_net ''2025-11-01'' ''2025-11-13'' 100)))) = [Some Phone]
   \<and> map topic (res_recordings (projr (fst
       (fetchAllPhoneRecordings topic_net ''2025-11-01'' ''2025-11-13'' 100))))
       = [Some ''Weekly sync'']
   \<and> map host_email (res_recordings (projr (fst
       (fetchAllPhoneRecordings topic_net ''2025-11-01'' ''2025-11-13'' 100))))
       = [Some ''host@example.com'']
   \<and> map files_types (res_recordings (projr (fst
       (fetchAllPhoneRecordings topic_net ''2025-11-01'' ''2025-11-13'' 100))))
       = [Some [''MP4'']]"
  by (simp add: topic_run)

text \<open>
  C9, as the code has it. Every record of the paginator has the one tag \<open>phone\<close> and is
  otherwise the record \<open>r\<close> that a page of the upstream held: the paginator sets no other
  field, so \<open>topic\<close>, \<open>host_email\<close> and \<open>files_types\<close> are populated exactly when the
  upstream record has them. Every record of the normalizer has the one tag \<open>meetings\<close>
  and no \<open>download_url\<close>.
\<close>

theorem source_tag_fields:
  "(\<forall>res issued r'.
      fetchAllPhoneRecordings net req_from req_to zps = (Inr res, issued)
      \<longrightarrow> r' \<in> set (res_recordings res)
      \<longrightarrow> source r' = Some Phone
          \<and> (\<exists>i<length issued. \<exists>page r.
                 fetchJson (net i) = Inr page
               \<and> r \<in> set (case recordings page of None \<Rightarrow> [] | Some rs \<Rightarrow> rs)
               \<and> r' = r\<lparr>source := Some Phone\<rparr>
               \<and> topic r' = topic r \<and> host_email r' = host_email r
               \<and> files_types r' = files_types r))
   \<and> (\<forall>res r'.
        fetchAllMeetingRecordings js outcome req_from req_to = Inr res
        \<longrightarrow> r' \<in> set (res_recordings res)
        \<longrightarrow> source r' = Some Meetings \<and> download_url r' = None)"
proof (intro conjI allI impI)
  fix res issued r'
  assume run: "fetchAllPhoneRecordings net req_from req_to zps = (Inr res, issued)"
    and r': "r' \<in> set (res_recordings res)"
  from fetchAllPhoneRecordings_walk [OF run]
  obtain ps p where
    len: "length issued = Suc (length ps)" and
    pages: "\<forall>i<length ps. fetchJson (net i) = Inr (ps ! i) \<and> truthy (next_page_token (ps ! i))" and
    last_page: "fetchJson (net (length ps)) = Inr p" and
    recs: "res_recordings res = concat (map page_recs (ps @ [p]))"
    by auto
  have all: "\<forall>i<length (ps @ [p]). fetchJson (net i) = Inr ((ps @ [p]) ! i)"
    using pages last_page by (auto simp: nth_append less_Suc_eq)
  from r' recs obtain q where q: "q \<in> set (ps @ [p])" and in_q: "r' \<in> set (page_recs q)"
    by auto
  from q obtain i where i: "i < length (ps @ [p])" and qi: "(ps @ [p]) ! i = q"
    by (metis in_set_conv_nth)
  from in_q obtain r where
    r: "r \<in> set (case recordings q of None \<Rightarrow> [] | Some rs \<Rightarrow> rs)" and
    tag: "r' = r\<lparr>source := Some Phone\<rparr>"
    by (auto simp: page_recs_unfold)
  from tag show "source r' = Some Phone" by simp
  have "i < length issued" using i len by simp
  moreover have "fetchJson (net i) = Inr q" using all i qi by auto
  moreover have "topic r' = topic r \<and> host_email r' = host_email r
               \<and> files_types r' = files_types r"
    using tag by simp
  ultimately show "\<exists>i<length issued. \<exists>page r.
                 fetchJson (net i) = Inr page
               \<and> r \<in> set (case recordings page of None \<Rightarrow> [] | Some rs \<Rightarrow> rs)
               \<and> r' = r\<lparr>source := Some Phone\<rparr>
               \<and> topic r' = topic r \<and> host_email r' = host_email r
               \<and> files_types r' = files_types r"
    using r tag by blast
next
  fix res r'
  assume run: "fetchAllMeetingRecordings js outcome req_from req_to = Inr res"
    and r': "r' \<in> set (res_recordings res)"
  from run r' obtain m where "r' = normalizeMeeting js m"
    by (auto simp: fetchAllMeetingRecordings_def split: sum.splits)
  then show "source r' = Some Meetings" and "download_url r' = None"
    by (simp_all add: normalizeMeeting_def)
qed

text \<open>On the three phone pages and on the two example meetings.\<close>

lemma meetings_run:
  "fetchAllMeetingRecordings example_engine meetings_ok ''2025-11-01'' ''2025-11-13''
     = Inr \<lparr> res_from = ''2025-11-01'', res_to = ''2025-11-13'',
             res_recordings = [normalizeMeeting example_engine (example_meeting start_files),
                               normalizeMeeting example_engine owner_email_only] \<rparr>"
  by (simp add: fetchAllMeetingRecordings_def meetings_ok_def nullish_or_def)

theorem source_tag_fields_witness:
  "source ((example_recording ''a'')\<lparr>source := Some Phone\<rparr>) = Some Phone
   \<and> (\<exists>i<length three_pages_requests. \<exists>page r.
         fetchJson (three_pages_net i) = Inr page
       \<and> r \<in> set (case recordings page of None \<Rightarrow> [] | Some rs \<Rightarrow> rs)
       \<and> (example_recording ''a'')\<lparr>source := Some Phone\<rparr> = r\<lparr>source := Some Phone\<rparr>
       \<and> topic ((example_recording ''a'')\<lparr>source := Some Phone\<rparr>) = topic r
       \<and> host_email ((example_recording ''a'')\<lparr>source := Some Phone\<rparr>) = host_email r
       \<and> files_types ((example_recording ''a'')\<lparr>source := Some Phone\<rparr>) = files_types r)
   \<and> source (normalizeMeeting example_engine owner_email_only) = Some Meetings
   \<and> download_url (normalizeMeeting example_engine owner_email_only) = None"
proof -
  note th = source_tag_fields [of three_pages_net "''2025-11-01''" "''2025-11-13''" 100
      example_engine meetings_ok]
  have in_phone: "(example_recording ''a'')\<lparr>source := Some Phone\<rparr>
                    \<in> set (res_recordings three_pages_result)"
    by (simp add: three_pages_result_def)
  have in_meet: "normalizeMeeting example_engine owner_email_only
      \<in> set (res_recordings \<lparr> res_from = ''2025-11-01'', res_to = ''2025-11-13'',
             res_recordings = [normalizeMeeting example_engine (example_meeting start_files),
                               normalizeMeeting example_engine owner_email_only] \<rparr>)"
    by simp
  from th [THEN conjunct1, rule_format, OF three_pages_run in_phone]
       th [THEN conjunct2, rule_format, OF meetings_run in_meet]
  show ?thesis by blast
qed

section \<open>Claims about the orchestrator\<close>

text \<open>The \<open>try\<close> block throws exactly when the path it dispatches to throws.\<close>

lemma try_block_throws:
  "try_block env req_from req_to pageSize source_filter demoMode = Inl e \<longleftrightarrow>
     (if demoMode then generateDemoRecordings env req_from req_to = Inl e
      else if source_filter = ''phone''
        then fst (fetchAllPhoneRecordings (phone_net env) req_from req_to (zoomPageSize pageSize))
               = Inl e
      else fetchAllMeetingRecordings (engine env) (meeting_net env) req_from req_to = Inl e)"
  by (auto simp: try_block_def split: sum.splits)

text \<open>
  C8. When the dispatched path throws \<open>e\<close>, the state after \<open>fetchRecordings\<close> has as
  \<open>error\<close> the message of \<open>e\<close>, or \<open>String(e)\<close> when \<open>e\<close> has no message or an empty one
  (for an \<open>Error\<close> object that is its name); \<open>data\<close> is what it was before the call; and
  \<open>loading\<close> is false.
\<close>

theorem error_keeps_data:
  assumes "try_block env req_from req_to pageSize source_filter demoMode = Inl e"
  shows "error (fetchRecordings env req_from req_to pageSize source_filter demoMode st)
           = Some (case e of
                     ErrorObj name msg \<Rightarrow> if msg \<noteq> [] then msg else name
                   | Thrown s \<Rightarrow> s)
         \<and> data (fetchRecordings env req_from req_to pageSize source_filter demoMode st) = data st
         \<and> loading (fetchRecordings env req_from req_to pageSize source_filter demoMode st) = False"
  using assms
  by (cases e) (simp_all add: fetchRecordings_def error_text_def error_toString_def)

text \<open>The phone upstream fails on its second page: the earlier result stays.\<close>

lemma failing_try_block:
  "try_block failing_env ''2025-11-01'' ''2025-11-13'' 100 ''phone'' False
     = Inl (ErrorObj ''Error'' ''HTTP 500: upstream down'')"
  by (simp add: try_block_def failing_env_def zoomPageSize_def failing_run)

theorem error_keeps_data_witness:
  "error (fetchRecordings failing_env ''2025-11-01'' ''2025-11-13'' 100 ''phone'' False
            earlier_state) = Some ''HTTP 500: upstream down''
   \<and> data (fetchRecordings failing_env ''2025-11-01'' ''2025-11-13'' 100 ''phone'' False
            earlier_state)
       = Some (envelope ''2025-10-01'' ''2025-10-31'' [example_recording ''old''])
   \<and> loading (fetchRecordings failing_env ''2025-11-01'' ''2025-11-13'' 100 ''phone'' False
            earlier_state) = False"
  using error_keeps_data [OF failing_try_block, of earlier_state]
  by (simp add: earlier_state_def)

text \<open>For comparison, the path that returns: the envelope replaces \<open>data\<close>.\<close>

lemma success_replaces_data:
  assumes "try_block env req_from req_to pageSize source_filter demoMode = Inr d"
  shows "fetchRecordings env req_from req_to pageSize source_filter demoMode st
           = st\<lparr>data := Some d, error := None, loading := False\<rparr>"
  using assms by (simp add: fetchRecordings_def)

end
